theory Spec2Isabelle
  imports Main "HOL-Library.Word"
begin

unbundle bit_operations_syntax

section \<open>Data model\<close>

text \<open>
  Go strings are byte sequences and \<open>len\<close> counts bytes: a Go \<open>string\<close> is a HOL
  \<open>string\<close> (a list of 8-bit characters), a \<open>[]byte\<close> is a list of 8-bit words and
  \<open>[]byte(s)\<close> is \<open>bytes_of s\<close>. Go's \<open>int\<close> is modelled as \<open>int\<close> on a 64-bit
  platform: every arithmetic operation of the package works on lengths and on the
  constants of the strength table, far away from the bounds of the type.
\<close>

type_synonym byte = "8 word"

definition bytes_of :: "string \<Rightarrow> byte list" where
  "bytes_of s = map of_char s"

text \<open>
  The errors of the package are \<open>fmt.Errorf\<close> and \<open>errors.New\<close> values; each kind is one
  constructor, in the order of the messages
  \<^verbatim>\<open>bip39 is based on 2048 words\<close>,
  \<^verbatim>\<open>identifier must be at least 2 chars\<close>,
  \<^verbatim>\<open>password must be at least 12 chars\<close>,
  \<^verbatim>\<open>passcode must be 6 digits\<close>,
  \<^verbatim>\<open>passcode must be numeric but given '%s'\<close>,
  \<^verbatim>\<open>unsupported strength: %d\<close>,
  \<^verbatim>\<open>unrecognized word %s\<close> and
  \<^verbatim>\<open>invalid checksum\<close>.
  \<open>Panic\<close> is not a returned error: it stands for a run-time panic of the Go code
  (an index or a slice bound out of range, a negative length given to \<open>make\<close>).
\<close>

datatype error =
    WordlistSizeError
  | IdentifierTooShort
  | PasswordTooShort
  | PasscodeWrongLength
  | PasscodeNotNumeric string
  | UnsupportedStrength int
  | UnrecognizedWord string
  | InvalidChecksum
  | Panic

record mnemonicer =
  words :: "string list"
  dict :: "string \<rightharpoonup> int"

definition bitChunkSizeOneByte :: int where "bitChunkSizeOneByte = 8"
definition bitChunkSizeBip39WordIndex :: int where "bitChunkSizeBip39WordIndex = 11"
definition bitChunkSizeEntropy :: int where "bitChunkSizeEntropy = 32"

definition saltPrefixMnemonic :: string where "saltPrefixMnemonic = ''mnemonic''"
definition saltPrefixPassword :: string where "saltPrefixPassword = ''pwd''"
definition saltPrefixPasscode :: string where "saltPrefixPasscode = ''code''"

definition inputIdentifierMinLength :: int where "inputIdentifierMinLength = 2"
definition inputPasscodeLength :: int where "inputPasscodeLength = 6"
definition inputPasswordMinLength :: int where "inputPasswordMinLength = 12"

definition strengths :: "int set" where
  "strengths = {256, 224, 192, 160, 128}"

text \<open>\<open>_sentenceStrengths[n]\<close>: reading a Go map at a missing key gives the zero value.\<close>

definition sentenceStrengths :: "int \<Rightarrow> int" where
  "sentenceStrengths n =
     (if n = 24 then 256 else if n = 21 then 224 else if n = 18 then 192
      else if n = 15 then 160 else if n = 12 then 128 else 0)"

section \<open>The library functions the package calls\<close>

text \<open>
  \<open>crypto/sha256\<close>, \<open>golang.org/x/crypto/pbkdf2\<close> and \<open>golang.org/x/crypto/scrypt\<close> are
  not part of the repository. They are parameters of the model: \<open>sha256_Sum256\<close> is
  \<open>sha256.Sum256\<close>, \<open>pbkdf2_Key password salt iter keyLen h\<close> is \<open>pbkdf2.Key\<close> and
  \<open>scrypt_Key password salt N r p keyLen\<close> is \<open>scrypt.Key\<close>, which returns a key and an
  error (\<open>None\<close> is \<open>nil\<close>).
\<close>

datatype hash = sha512_New | sha256_New

record crypto =
  sha256_Sum256 :: "byte list \<Rightarrow> byte list"
  pbkdf2_Key :: "byte list \<Rightarrow> byte list \<Rightarrow> int \<Rightarrow> int \<Rightarrow> hash \<Rightarrow> byte list"
  scrypt_Key :: "byte list \<Rightarrow> byte list \<Rightarrow> int \<Rightarrow> int \<Rightarrow> int \<Rightarrow> int \<Rightarrow> byte list \<times> string option"

text \<open>
  What the model uses of these libraries' contracts: \<open>sha256.Sum256\<close> returns a
  \<open>[32]byte\<close>, and \<open>pbkdf2.Key\<close> returns exactly \<open>keyLen\<close> bytes.
\<close>

definition sha256_contract :: "crypto \<Rightarrow> bool" where
  "sha256_contract c = (\<forall>x. length (sha256_Sum256 c x) = 32)"

definition pbkdf2_contract :: "crypto \<Rightarrow> bool" where
  "pbkdf2_contract c =
     (\<forall>pw salt iter keyLen h. 0 \<le> keyLen \<longrightarrow> length (pbkdf2_Key c pw salt iter keyLen h) = nat keyLen)"

text \<open>
  Modelled from the spec: the scrypt library is missing from the sources; the spec names
  its parameters (cost \<open>N\<close>, block size \<open>r\<close>, parallelization \<open>p\<close>, output length).
  The parameter requirements are those the library documents and checks before it
  derives anything: \<open>N\<close> is a power of two greater than 1, and \<open>r\<close> and \<open>p\<close> satisfy
  \<open>r * p < 2^30\<close> and the size bounds below (\<open>maxInt\<close> of a 64-bit platform; the
  bounds of a 32-bit platform hold for the parameters of this package as well). With
  acceptable parameters the library returns \<open>keyLen\<close> bytes and a nil error, otherwise a
  nil key and an error.
\<close>

definition maxInt :: int where
  "maxInt = 2 ^ 63 - 1"

definition scrypt_params_ok :: "int \<Rightarrow> int \<Rightarrow> int \<Rightarrow> bool" where
  "scrypt_params_ok N r p =
     (\<not> (N \<le> 1 \<or> N AND (N - 1) \<noteq> 0) \<and>
      \<not> (r * p \<ge> 2 ^ 30 \<or> r > maxInt div 128 div p \<or> r > maxInt div 256 \<or> N > maxInt div 128 div r))"

definition scrypt_contract :: "crypto \<Rightarrow> bool" where
  "scrypt_contract c =
     (\<forall>pw salt N r p keyLen. 0 \<le> keyLen \<longrightarrow>
        (if scrypt_params_ok N r p
         then snd (scrypt_Key c pw salt N r p keyLen) = None \<and>
              length (fst (scrypt_Key c pw salt N r p keyLen)) = nat keyLen
         else snd (scrypt_Key c pw salt N r p keyLen) \<noteq> None \<and>
              fst (scrypt_Key c pw salt N r p keyLen) = []))"

subsection \<open>\<open>fmt\<close> verbs\<close>

text \<open>
  \<open>%b\<close> and \<open>%d\<close> of a non-negative integer: the digits, most significant first, with no
  leading zero (\<open>0\<close> is rendered as one digit). \<open>pad0 w s\<close> is the zero flag with width
  \<open>w\<close>: zeros on the left up to \<open>w\<close> characters.
\<close>

definition digit_char :: "nat \<Rightarrow> char" where
  "digit_char d = ''0123456789'' ! d"

fun fmt_b :: "nat \<Rightarrow> string" where
  "fmt_b n = (if n < 2 then [digit_char n] else fmt_b (n div 2) @ [digit_char (n mod 2)])"

fun fmt_d_nat :: "nat \<Rightarrow> string" where
  "fmt_d_nat n = (if n < 10 then [digit_char n] else fmt_d_nat (n div 10) @ [digit_char (n mod 10)])"

declare fmt_b.simps [simp del] fmt_d_nat.simps [simp del]

definition fmt_d :: "int \<Rightarrow> string" where
  "fmt_d n = (if n < 0 then CHR ''-'' # fmt_d_nat (nat (- n)) else fmt_d_nat (nat n))"

definition pad0 :: "nat \<Rightarrow> string \<Rightarrow> string" where
  "pad0 w s = replicate (w - length s) CHR ''0'' @ s"

text \<open>\<open>fmt.Sprintf("%08b", n)\<close> for a byte \<open>n\<close>.\<close>

definition fmt_08b :: "byte \<Rightarrow> string" where
  "fmt_08b n = pad0 8 (fmt_b (unat n))"

subsection \<open>\<open>strconv\<close>\<close>

text \<open>
  \<open>strconv.Atoi\<close> and \<open>strconv.ParseInt(s, 2, 64)\<close>, as the library documents them: the
  string may begin with a sign, \<open>+\<close> or \<open>-\<close>, and the rest must be one or more digits of
  the base (an underscore is accepted only with base 0). \<open>digits_value base ds\<close> reads
  the digits as the library's loop does: each byte minus \<open>'0'\<close>, refused when it is not
  below the base.
\<close>

fun digits_value :: "nat \<Rightarrow> string \<Rightarrow> nat \<Rightarrow> nat option" where
  "digits_value base [] n = Some n"
| "digits_value base (ch # s) n =
     (let d = (of_char ch :: byte) - 48
      in if unat d \<ge> base then None else digits_value base s (n * base + unat d))"

definition strip_sign :: "string \<Rightarrow> bool \<times> string" where
  "strip_sign s =
     (case s of
        [] \<Rightarrow> (False, [])
      | ch # t \<Rightarrow> if ch = CHR ''+'' then (False, t) else if ch = CHR ''-'' then (True, t) else (False, s))"

text \<open>\<open>Atoi\<close>: \<open>None\<close> is a non-nil error (syntax, or a value out of the range of \<open>int\<close>).\<close>

definition Atoi :: "string \<Rightarrow> int option" where
  "Atoi s =
     (let (neg, t) = strip_sign s
      in if t = [] then None
         else case digits_value 10 t 0 of
                None \<Rightarrow> None
              | Some un \<Rightarrow>
                  if \<not> neg \<and> int un \<ge> 2 ^ 63 then None
                  else if neg \<and> int un > 2 ^ 63 then None
                  else Some (if neg then - int un else int un))"

text \<open>
  \<open>ParseInt(s, 2, 64)\<close> returns a value and an error: the value is 0 with a syntax
  error, and the nearest bound of \<open>int64\<close> with a range error.
\<close>

definition ParseInt_2_64 :: "string \<Rightarrow> int \<times> bool" where
  "ParseInt_2_64 s =
     (let (neg, t) = strip_sign s
      in if t = [] then (0, True)
         else case digits_value 2 t 0 of
                None \<Rightarrow> (0, True)
              | Some un \<Rightarrow>
                  if \<not> neg \<and> int un \<ge> 2 ^ 63 then (2 ^ 63 - 1, True)
                  else if neg \<and> int un > 2 ^ 63 then (- (2 ^ 63), True)
                  else (if neg then - int un else int un, False))"

section \<open>The package\<close>

subsection \<open>Helpers\<close>

text \<open>Slices \<open>s[:n]\<close> and \<open>s[n:]\<close>: a bound outside \<open>0..len(s)\<close> panics (\<open>None\<close>).\<close>

definition slice_to :: "'a list \<Rightarrow> int \<Rightarrow> 'a list option" where
  "slice_to s n = (if 0 \<le> n \<and> n \<le> int (length s) then Some (take (nat n) s) else None)"

definition slice_from :: "'a list \<Rightarrow> int \<Rightarrow> 'a list option" where
  "slice_from s n = (if 0 \<le> n \<and> n \<le> int (length s) then Some (drop (nat n) s) else None)"

text \<open>A panic inside a function that returns \<open>(value, error)\<close>.\<close>

definition or_panic :: "'a option \<Rightarrow> ('a \<Rightarrow> error + 'b) \<Rightarrow> error + 'b" where
  "or_panic x f = (case x of None \<Rightarrow> Inl Panic | Some v \<Rightarrow> f v)"

text \<open>
  \<open>binToBytes\<close>. The loop state is \<open>(bs, i, current, count)\<close>; a store \<open>bs[i] = ...\<close> with
  \<open>i\<close> out of range panics. \<open>range\<close> over a Go string yields runes; every byte below
  \<open>0x80\<close> is its own rune, and the strings this package passes are renderings of \<open>%b\<close>,
  so the model reads the string byte by byte. \<open>byte(v - '0')\<close> is the byte minus 48.
\<close>

fun binToBytes_loop :: "string \<Rightarrow> byte list \<times> nat \<times> byte \<times> nat \<Rightarrow> (byte list \<times> nat \<times> byte \<times> nat) option" where
  "binToBytes_loop [] st = Some st"
| "binToBytes_loop (v # vs) (bs, i, current, count) =
     (case (if count = 8
            then (if i < length bs then Some (bs[i := current], i + 1, 0, 0) else None)
            else Some (bs, i, current, count)) of
        None \<Rightarrow> None
      | Some (bs', i', current', count') \<Rightarrow>
          binToBytes_loop vs (bs', i', push_bit 1 current' + ((of_char v :: byte) - 48), count' + 1))"

definition binToBytes :: "string \<Rightarrow> byte list option" where
  "binToBytes bitString =
     (let lenB = length bitString div 8 + 1;
          bs = replicate lenB (0 :: byte)
      in case binToBytes_loop bitString (bs, 0, 0, 0) of
           None \<Rightarrow> None
         | Some (bs, i, current, count) \<Rightarrow>
             if count \<noteq> 0 then
               (if i < length bs then Some (take (i + 1) (bs[i := push_bit (8 - count) current])) else None)
             else Some (take i bs))"

definition bytesToBin :: "byte list \<Rightarrow> string" where
  "bytesToBin vals = foldl (\<lambda>val n. val @ fmt_08b n) [] vals"

text \<open>
  \<open>intToBin(n, bits)\<close> is \<open>fmt.Sprintf("%0<bits>b", n)\<close>; the only call passes the width
  11. A negative number is rendered with its sign, which counts in the width.
\<close>

definition intToBin :: "int \<Rightarrow> nat \<Rightarrow> string" where
  "intToBin n bits =
     (if n < 0 then CHR ''-'' # pad0 (bits - 1) (fmt_b (nat (- n))) else pad0 bits (fmt_b (nat n)))"

definition binToInt :: "string \<Rightarrow> int" where
  "binToInt n = fst (ParseInt_2_64 n)"

text \<open>
  \<open>chunkSplit\<close>: \<open>l = len(s) / size\<close> panics when \<open>size\<close> is zero; the slices
  \<open>s[i*size:(i+1)*size]\<close> are within \<open>s\<close> for every \<open>i < l\<close>.
\<close>

function chunkSplit_loop :: "string \<Rightarrow> nat \<Rightarrow> nat \<Rightarrow> nat \<Rightarrow> string list \<Rightarrow> string list" where
  "chunkSplit_loop s sz l i chunks =
     (if i < l then chunkSplit_loop s sz l (i + 1) (chunks @ [take sz (drop (i * sz) s)])
      else chunks)"
  by pat_completeness auto
termination
  by (relation "measure (\<lambda>(s, sz, l, i, chunks). l - i)") auto

declare chunkSplit_loop.simps [simp del]

definition chunkSplit :: "string \<Rightarrow> nat \<Rightarrow> string list option" where
  "chunkSplit s sz = (if sz = 0 then None else Some (chunkSplit_loop s sz (length s div sz) 0 []))"

subsection \<open>Construction\<close>

primrec dict_loop :: "string list \<Rightarrow> nat \<Rightarrow> (string \<rightharpoonup> int) \<Rightarrow> (string \<rightharpoonup> int)" where
  "dict_loop [] i d = d"
| "dict_loop (w # ws) i d = dict_loop ws (i + 1) (d(w \<mapsto> int i))"

definition New :: "string list \<Rightarrow> error + mnemonicer" where
  "New ws =
     (if length ws \<noteq> 2048 then Inl WordlistSizeError
      else Inr \<lparr>words = ws, dict = dict_loop ws 0 Map.empty\<rparr>)"

subsection \<open>Validation and checksum\<close>

definition validateStrength :: "int \<Rightarrow> error option" where
  "validateStrength s = (if s \<in> strengths then None else Some (UnsupportedStrength s))"

primrec validateWordsPrecense :: "mnemonicer \<Rightarrow> string list \<Rightarrow> error option" where
  "validateWordsPrecense m [] = None"
| "validateWordsPrecense m (w # ws) =
     (case dict m w of None \<Rightarrow> Some (UnrecognizedWord w) | Some _ \<Rightarrow> validateWordsPrecense m ws)"

text \<open>\<open>m.dict[w]\<close>: the zero value for a missing key.\<close>

definition dict_at :: "mnemonicer \<Rightarrow> string \<Rightarrow> int" where
  "dict_at m w = (case dict m w of None \<Rightarrow> 0 | Some i \<Rightarrow> i)"

definition buildBins :: "mnemonicer \<Rightarrow> int \<Rightarrow> string list \<Rightarrow> error + string" where
  "buildBins m strength ws =
     (case validateStrength strength of
        Some e \<Rightarrow> Inl e
      | None \<Rightarrow>
          (case validateWordsPrecense m ws of
             Some e \<Rightarrow> Inl e
           | None \<Rightarrow>
               Inr (foldl (\<lambda>bins w. bins @ intToBin (dict_at m w) (nat bitChunkSizeBip39WordIndex)) [] ws)))"

text \<open>\<open>checksum\<close>: \<open>sum[0]\<close> of the \<open>[32]byte\<close> digest, rendered with \<open>%08b\<close>, sliced \<open>[:size]\<close>.\<close>

definition checksum :: "crypto \<Rightarrow> byte list \<Rightarrow> int \<Rightarrow> string option" where
  "checksum c entropy sz =
     (let sum = sha256_Sum256 c entropy
      in slice_to (fmt_08b (sum ! 0)) sz)"

subsection \<open>Generate\<close>

text \<open>
  The loop \<open>entropy[i] = dkHead[i] ^ dkTail[i]\<close> for \<open>i < entropySize\<close>: reading either
  key beyond its end panics.
\<close>

function xor_loop :: "byte list \<Rightarrow> byte list \<Rightarrow> nat \<Rightarrow> nat \<Rightarrow> byte list \<Rightarrow> byte list option" where
  "xor_loop dkHead dkTail entropySize i entropy =
     (if i < entropySize then
        (if i < length dkHead \<and> i < length dkTail \<and> i < length entropy
         then xor_loop dkHead dkTail entropySize (i + 1) (entropy[i := dkHead ! i XOR dkTail ! i])
         else None)
      else Some entropy)"
  by pat_completeness auto
termination
  by (relation "measure (\<lambda>(dkHead, dkTail, entropySize, i, entropy). entropySize - i)") auto

declare xor_loop.simps [simp del]

text \<open>
  The entropy of \<open>Generate\<close> (the statements from \<open>input := ...\<close> to the end of the XOR
  loop), for a strength that passed \<open>validateStrength\<close>. The error of \<open>scrypt.Key\<close> is
  discarded. The integer divisions of Go truncate; every dividend here is a strength,
  which is not negative.
\<close>

definition Generate_input :: "string \<Rightarrow> string \<Rightarrow> string \<Rightarrow> int \<Rightarrow> string" where
  "Generate_input identifier password passcode wordCount =
     identifier @ '':'' @ password @ ''|'' @ passcode @ ''='' @ fmt_d wordCount"

definition Generate_salt :: "string \<Rightarrow> string \<Rightarrow> string" where
  "Generate_salt password passcode = saltPrefixPassword @ password @ saltPrefixPasscode @ passcode"

definition Generate_entropy :: "crypto \<Rightarrow> string \<Rightarrow> string \<Rightarrow> string \<Rightarrow> int \<Rightarrow> int \<Rightarrow> byte list option" where
  "Generate_entropy c identifier password passcode wordCount strength =
     (let input = bytes_of (Generate_input identifier password passcode wordCount);
          entropySize = strength div bitChunkSizeOneByte;
          dkHead = pbkdf2_Key c input (bytes_of (Generate_salt password passcode)) (2 ^ 18) entropySize sha512_New;
          dkTail = fst (scrypt_Key c input (bytes_of (Generate_salt password passcode)) (2 ^ 18) 8 1 entropySize)
      in if entropySize < 0 then None
         else xor_loop dkHead dkTail (nat entropySize) 0 (replicate (nat entropySize) 0))"

text \<open>\<open>ws[i] = m.words[k]\<close>: both indices are checked.\<close>

definition store_word :: "mnemonicer \<Rightarrow> string list \<Rightarrow> int \<Rightarrow> int \<Rightarrow> string list option" where
  "store_word m ws i k =
     (if 0 \<le> k \<and> k < int (length (words m)) \<and> 0 \<le> i \<and> i < int (length ws)
      then Some (ws[nat i := words m ! nat k]) else None)"

fun words_loop :: "mnemonicer \<Rightarrow> string list \<Rightarrow> nat \<Rightarrow> string list \<Rightarrow> string list option" where
  "words_loop m [] i ws = Some ws"
| "words_loop m (wi # wis) i ws =
     (case store_word m ws (int i) (binToInt wi) of
        None \<Rightarrow> None
      | Some ws' \<Rightarrow> words_loop m wis (i + 1) ws')"

text \<open>The words of \<open>Generate\<close> (from \<open>bins := bytesToBin(entropy)\<close> to the return).\<close>

definition Generate_words :: "crypto \<Rightarrow> mnemonicer \<Rightarrow> byte list \<Rightarrow> int \<Rightarrow> error + string list" where
  "Generate_words c m entropy strength =
     (let bins = bytesToBin entropy;
          csSize = strength div bitChunkSizeEntropy;
          mnemonicSize = (strength + csSize) div bitChunkSizeBip39WordIndex;
          prefixSize = bitChunkSizeBip39WordIndex - csSize
      in or_panic (slice_to bins (strength - prefixSize)) (\<lambda>head.
         or_panic (chunkSplit head (nat bitChunkSizeBip39WordIndex)) (\<lambda>wordIndexes.
         or_panic (if mnemonicSize < 0 then None else Some (replicate (nat mnemonicSize) [])) (\<lambda>ws0.
         or_panic (words_loop m wordIndexes 0 ws0) (\<lambda>ws1.
         or_panic (checksum c entropy csSize) (\<lambda>cs.
         or_panic (slice_from bins (strength - prefixSize)) (\<lambda>prefix.
         or_panic (store_word m ws1 (mnemonicSize - 1) (binToInt (prefix @ cs))) Inr)))))))"

definition Generate :: "crypto \<Rightarrow> mnemonicer \<Rightarrow> string \<Rightarrow> string \<Rightarrow> string \<Rightarrow> int \<Rightarrow> error + string list" where
  "Generate c m identifier password passcode wordCount =
     (if int (length identifier) < inputIdentifierMinLength then Inl IdentifierTooShort
      else if int (length password) < inputPasswordMinLength then Inl PasswordTooShort
      else if int (length passcode) \<noteq> inputPasscodeLength then Inl PasscodeWrongLength
      else case Atoi passcode of
             None \<Rightarrow> Inl (PasscodeNotNumeric passcode)
           | Some _ \<Rightarrow>
               (let strength = sentenceStrengths wordCount
                in case validateStrength strength of
                     Some e \<Rightarrow> Inl e
                   | None \<Rightarrow>
                       or_panic (Generate_entropy c identifier password passcode wordCount strength)
                         (\<lambda>entropy. Generate_words c m entropy strength)))"

subsection \<open>CalculateEntropy, IsValid and the seeds\<close>

definition CalculateEntropy :: "crypto \<Rightarrow> mnemonicer \<Rightarrow> string list \<Rightarrow> error + byte list" where
  "CalculateEntropy c m ws =
     (let strength = sentenceStrengths (int (length ws))
      in case buildBins m strength ws of
           Inl e \<Rightarrow> Inl e
         | Inr bins \<Rightarrow>
             or_panic (slice_to bins strength) (\<lambda>head.
             or_panic (binToBytes head) (\<lambda>entropy.
             or_panic (checksum c entropy (strength div bitChunkSizeEntropy)) (\<lambda>cs.
             or_panic (slice_from bins strength) (\<lambda>tail.
               if cs = tail then Inr entropy else Inl InvalidChecksum)))))"

definition IsValid :: "crypto \<Rightarrow> mnemonicer \<Rightarrow> string list \<Rightarrow> error + bool" where
  "IsValid c m ws =
     (let strength = sentenceStrengths (int (length ws))
      in case buildBins m strength ws of
           Inl e \<Rightarrow> Inl e
         | Inr bins \<Rightarrow>
             or_panic (slice_to bins strength) (\<lambda>head.
             or_panic (binToBytes head) (\<lambda>entropy.
             or_panic (checksum c entropy (strength div bitChunkSizeEntropy)) (\<lambda>cs.
             or_panic (slice_from bins strength) (\<lambda>tail.
               if cs = tail then Inr True else Inr False)))))"

definition GenerateSeed :: "crypto \<Rightarrow> mnemonicer \<Rightarrow> string \<Rightarrow> string \<Rightarrow> error + byte list" where
  "GenerateSeed c m sentence passphrase =
     Inr (pbkdf2_Key c (bytes_of sentence) (bytes_of (saltPrefixMnemonic @ passphrase)) 2048 64 sha512_New)"

definition GenerateSeed32 :: "crypto \<Rightarrow> mnemonicer \<Rightarrow> string \<Rightarrow> string \<Rightarrow> error + byte list" where
  "GenerateSeed32 c m sentence passphrase =
     Inr (pbkdf2_Key c (bytes_of sentence) (bytes_of (saltPrefixMnemonic @ passphrase)) 4096 32 sha512_New)"

section \<open>Notions of the specification\<close>

text \<open>
  A bit string is a string of the characters \<open>0\<close> and \<open>1\<close>; its value is the
  base-2 unsigned integer it denotes, most significant bit first.
\<close>

definition bit_string :: "string \<Rightarrow> bool" where
  "bit_string s = list_all (\<lambda>ch. ch = CHR ''0'' \<or> ch = CHR ''1'') s"

definition bit_of :: "char \<Rightarrow> nat" where
  "bit_of ch = (if ch = CHR ''1'' then 1 else 0)"

definition bits_value :: "string \<Rightarrow> nat" where
  "bits_value s = foldl (\<lambda>n ch. 2 * n + bit_of ch) 0 s"

text \<open>
  Packing as the specification words it: the bits are cut into groups of 8, the last
  group possibly shorter; a group of \<open>k\<close> bits becomes the byte whose most significant
  \<open>k\<close> bits are the group and whose low \<open>8 - k\<close> bits are zero.
\<close>

definition spec_byte :: "string \<Rightarrow> byte" where
  "spec_byte g = of_nat (bits_value g * 2 ^ (8 - length g))"

function packed_bytes :: "string \<Rightarrow> byte list" where
  "packed_bytes s = (if s = [] then [] else spec_byte (take 8 s) # packed_bytes (drop 8 s))"
  by pat_completeness auto
termination
  by (relation "measure length") auto

declare packed_bytes.simps [simp del]

text \<open>A decimal digit, as \<open>strconv\<close> tests it.\<close>

definition decimal_digit :: "char \<Rightarrow> bool" where
  "decimal_digit ch = (48 \<le> (of_char ch :: nat) \<and> (of_char ch :: nat) \<le> 57)"

text \<open>
  The \<open>w\<close>-bit rendering of a number, most significant bit first, and the expansion of
  a byte sequence to bits.
\<close>

definition bits_of :: "nat \<Rightarrow> nat \<Rightarrow> string" where
  "bits_of w n = map (\<lambda>j. if bit n (w - 1 - j) then CHR ''1'' else CHR ''0'') [0..<w]"

definition spec_bits :: "byte list \<Rightarrow> string" where
  "spec_bits vals = concat (map (\<lambda>b. bits_of 8 (unat b)) vals)"

text \<open>The preconditions of \<open>Generate\<close>, as the specification lists them.\<close>

definition word_counts :: "int set" where
  "word_counts = {12, 15, 18, 21, 24}"

definition valid_passcode :: "string \<Rightarrow> bool" where
  "valid_passcode passcode = (length passcode = 6 \<and> list_all decimal_digit passcode)"

definition valid_inputs :: "string \<Rightarrow> string \<Rightarrow> string \<Rightarrow> int \<Rightarrow> bool" where
  "valid_inputs identifier password passcode wordCount =
     (2 \<le> length identifier \<and> 12 \<le> length password \<and> valid_passcode passcode \<and> wordCount \<in> word_counts)"

text \<open>
  The canonical message and the salt of the specification; the word count is written
  in decimal.
\<close>

definition count_text :: "int \<Rightarrow> string" where
  "count_text n =
     (if n = 12 then ''12'' else if n = 15 then ''15'' else if n = 18 then ''18''
      else if n = 21 then ''21'' else if n = 24 then ''24'' else [])"

definition canonical_message :: "string \<Rightarrow> string \<Rightarrow> string \<Rightarrow> int \<Rightarrow> string" where
  "canonical_message identifier password passcode wordCount =
     identifier @ '':'' @ password @ ''|'' @ passcode @ ''='' @ count_text wordCount"

definition spec_salt :: "string \<Rightarrow> string \<Rightarrow> string" where
  "spec_salt password passcode = ''pwd'' @ password @ ''code'' @ passcode"

text \<open>The contracts of the three libraries together.\<close>

definition crypto_contract :: "crypto \<Rightarrow> bool" where
  "crypto_contract c = (sha256_contract c \<and> pbkdf2_contract c \<and> scrypt_contract c)"


section \<open>A small instance\<close>

text \<open>
  Stand-ins for the three libraries that meet their contracts, and a word list of 2048
  distinct words (the binary numerals of 0 to 2047), on which the theorems below are
  instantiated.
\<close>

definition example_crypto :: crypto where
  "example_crypto =
     \<lparr>sha256_Sum256 = (\<lambda>x. replicate 32 (of_nat (length x) + 77)),
      pbkdf2_Key = (\<lambda>pw salt iter keyLen h. take (nat keyLen) (pw @ salt @ replicate (nat keyLen) 0)),
      scrypt_Key = (\<lambda>pw salt N r p keyLen.
         if scrypt_params_ok N r p then (take (nat keyLen) (salt @ pw @ replicate (nat keyLen) 0), None)
         else ([], Some ''scrypt: invalid parameters''))\<rparr>"

definition example_words :: "string list" where
  "example_words = map fmt_b [0..<2048]"

definition example_mnemonicer :: mnemonicer where
  "example_mnemonicer = \<lparr>words = example_words, dict = dict_loop example_words 0 Map.empty\<rparr>"


section \<open>Bit strings and their renderings\<close>

lemma bit_string_simps [simp]:
  "bit_string []"
  "bit_string (ch # s) = ((ch = CHR ''0'' \<or> ch = CHR ''1'') \<and> bit_string s)"
  "bit_string (s @ t) = (bit_string s \<and> bit_string t)"
  "bit_string (replicate n CHR ''0'')"
  by (auto simp: bit_string_def list_all_iff)

lemma bit_string_take: "bit_string s \<Longrightarrow> bit_string (take n s)"
  and bit_string_drop: "bit_string s \<Longrightarrow> bit_string (drop n s)"
  by (auto simp: bit_string_def list_all_iff dest: in_set_takeD in_set_dropD)

lemma bits_value_simps [simp]:
  "bits_value [] = 0"
  "bits_value (s @ [ch]) = 2 * bits_value s + bit_of ch"
  by (simp_all add: bits_value_def)

lemma foldl_bits_acc:
  "foldl (\<lambda>n ch. 2 * n + bit_of ch) a s = a * 2 ^ length s + foldl (\<lambda>n ch. 2 * n + bit_of ch) 0 s"
proof (induction s arbitrary: a)
  case Nil
  show ?case by simp
next
  case (Cons ch s)
  show ?case
    using Cons.IH [of "2 * a + bit_of ch"] Cons.IH [of "bit_of ch"]
    by (simp add: algebra_simps)
qed

lemma bits_value_append: "bits_value (s @ t) = bits_value s * 2 ^ length t + bits_value t"
  using foldl_bits_acc [of "bits_value s" t] by (simp add: bits_value_def)

lemma bits_value_Cons: "bits_value (ch # s) = bit_of ch * 2 ^ length s + bits_value s"
  using bits_value_append [of "[ch]" s] bits_value_simps(2) [of "[]" ch] by simp

lemma bits_value_zeros [simp]: "bits_value (replicate n CHR ''0'') = 0"
  by (induction n) (simp_all add: bits_value_Cons bit_of_def)

lemma bits_value_less: "bits_value s < 2 ^ length s"
proof (induction s rule: rev_induct)
  case Nil
  show ?case by simp
next
  case (snoc ch s)
  have "bit_of ch \<le> 1" by (simp add: bit_of_def)
  with snoc show ?case by simp
qed

lemma digit_char_bit [simp]: "digit_char 0 = CHR ''0''" "digit_char (Suc 0) = CHR ''1''"
  by (simp_all add: digit_char_def)

lemma digit_char_mod2: "digit_char (n mod 2) = (if even n then CHR ''0'' else CHR ''1'')"
  by (cases "even n") (auto simp: mod_2_eq_odd)

lemma digit_char_less2: "n < 2 \<Longrightarrow> digit_char n = (if n = 0 then CHR ''0'' else CHR ''1'')"
  by (cases n) auto

lemma bit_of_digit_char: "n < 2 \<Longrightarrow> bit_of (digit_char n) = n"
  by (cases n) (auto simp: bit_of_def)

lemma fmt_b_small: "n < 2 \<Longrightarrow> fmt_b n = [digit_char n]"
  and fmt_b_big: "\<not> n < 2 \<Longrightarrow> fmt_b n = fmt_b (n div 2) @ [digit_char (n mod 2)]"
  by (subst fmt_b.simps, simp)+

lemma bit_string_fmt_b: "bit_string (fmt_b n)"
proof (induction n rule: fmt_b.induct)
  case (1 n)
  show ?case
  proof (cases "n < 2")
    case True
    then show ?thesis by (simp add: fmt_b_small digit_char_less2)
  next
    case False
    with 1 show ?thesis by (simp add: fmt_b_big digit_char_mod2)
  qed
qed

lemma bits_value_fmt_b: "bits_value (fmt_b n) = n"
proof (induction n rule: fmt_b.induct)
  case (1 n)
  show ?case
  proof (cases "n < 2")
    case True
    then show ?thesis
      using bits_value_simps(2) [of "[]" "digit_char n"] by (simp add: fmt_b_small bit_of_digit_char)
  next
    case False
    then have "bits_value (fmt_b n) = 2 * bits_value (fmt_b (n div 2)) + bit_of (digit_char (n mod 2))"
      by (simp add: fmt_b_big)
    with False 1 show ?thesis by (simp add: bit_of_digit_char)
  qed
qed

lemma length_fmt_b: "0 < k \<Longrightarrow> n < 2 ^ k \<Longrightarrow> length (fmt_b n) \<le> k"
proof (induction n arbitrary: k rule: fmt_b.induct)
  case (1 n)
  show ?case
  proof (cases "n < 2")
    case True
    with 1(2) show ?thesis by (simp add: fmt_b_small)
  next
    case False
    from False 1(3) have k: "1 < k" by (cases k; cases "k - 1") auto
    then obtain j where j: "k = Suc j" "0 < j" by (cases k) auto
    from 1(3) j have "n div 2 < 2 ^ j" by auto
    from 1(1) [OF False j(2) this] have "length (fmt_b (n div 2)) \<le> j" .
    moreover have "length (fmt_b n) = Suc (length (fmt_b (n div 2)))"
      using False by (simp add: fmt_b_big)
    ultimately show ?thesis using j by simp
  qed
qed

lemma fmt_b_nonempty: "fmt_b n \<noteq> []"
  by (cases "n < 2") (simp_all add: fmt_b_small fmt_b_big)

lemma length_pad0: "length s \<le> w \<Longrightarrow> length (pad0 w s) = w"
  by (simp add: pad0_def)

lemma bit_string_pad0: "bit_string (pad0 w s) = bit_string s"
  by (simp add: pad0_def)

lemma bits_value_pad0: "bits_value (pad0 w s) = bits_value s"
  by (simp add: pad0_def bits_value_append)

text \<open>A bit string is determined by its length and its value.\<close>

lemma bit_string_eqI:
  "bit_string s \<Longrightarrow> bit_string t \<Longrightarrow> length s = length t \<Longrightarrow> bits_value s = bits_value t \<Longrightarrow> s = t"
proof (induction s arbitrary: t rule: rev_induct)
  case Nil
  then show ?case by simp
next
  case (snoc a s)
  then obtain b u where t: "t = u @ [b]" by (cases t rule: rev_cases) auto
  from snoc.prems t have ab: "2 * bits_value s + bit_of a = 2 * bits_value u + bit_of b"
    and bits: "a = CHR ''0'' \<or> a = CHR ''1''" "b = CHR ''0'' \<or> b = CHR ''1''"
    by simp_all
  have le: "bit_of a \<le> 1" "bit_of b \<le> 1" by (simp_all add: bit_of_def)
  from ab le have "bit_of a = bit_of b" "bits_value s = bits_value u" by presburger+
  with bits snoc.IH [of u] snoc.prems t show ?case by (auto simp: bit_of_def)
qed

lemma pad0_fmt_b_bits_value:
  assumes "bit_string g" "g \<noteq> []"
  shows "pad0 (length g) (fmt_b (bits_value g)) = g"
proof (rule bit_string_eqI)
  have "length (fmt_b (bits_value g)) \<le> length g"
    using assms(2) by (intro length_fmt_b bits_value_less) simp
  then show "length (pad0 (length g) (fmt_b (bits_value g))) = length g"
    by (rule length_pad0)
qed (simp_all add: assms bit_string_pad0 bit_string_fmt_b bits_value_pad0 bits_value_fmt_b)

lemma length_fmt_08b [simp]: "length (fmt_08b b) = 8"
proof -
  have "unat b < 2 ^ 8" using unsigned_less [of b] by simp
  then have "length (fmt_b (unat b)) \<le> 8" by (intro length_fmt_b) simp_all
  then show ?thesis by (simp add: fmt_08b_def length_pad0)
qed

lemma bit_string_fmt_08b [simp]: "bit_string (fmt_08b b)"
  by (simp add: fmt_08b_def bit_string_pad0 bit_string_fmt_b)

lemma bits_value_fmt_08b [simp]: "bits_value (fmt_08b b) = unat b"
  by (simp add: fmt_08b_def bits_value_pad0 bits_value_fmt_b)

lemma foldl_append_concat: "foldl (\<lambda>acc x. acc @ f x) a xs = a @ concat (map f xs)"
  by (induction xs arbitrary: a) simp_all

lemma bytesToBin_concat: "bytesToBin vals = concat (map fmt_08b vals)"
  by (simp add: bytesToBin_def foldl_append_concat)

lemma bytesToBin_simps [simp]:
  "bytesToBin [] = []"
  "bytesToBin (b # bs) = fmt_08b b @ bytesToBin bs"
  by (simp_all add: bytesToBin_concat)

lemma length_bytesToBin [simp]: "length (bytesToBin vals) = 8 * length vals"
  by (induction vals) simp_all

lemma bit_string_bytesToBin [simp]: "bit_string (bytesToBin vals)"
  by (induction vals) simp_all

section \<open>Reading digits\<close>

lemma of_char_bit_minus:
  "ch = CHR ''0'' \<or> ch = CHR ''1'' \<Longrightarrow> (of_char ch :: byte) - 48 = of_nat (bit_of ch)"
  by (auto simp: bit_of_def)

lemma unat_of_char: "unat (of_char ch :: byte) = of_char ch"
proof -
  have "(of_char ch :: nat) < 256" by (cases ch) (simp add: horner_sum_eq_sum sum.atLeast_Suc_lessThan)
  have "(of_char ch :: byte) = of_nat (of_char ch)" by (simp add: of_nat_of_char)
  then have "unat (of_char ch :: byte) = of_char ch mod 256"
    by (simp add: unat_of_nat)
  with \<open>(of_char ch :: nat) < 256\<close> show ?thesis by simp
qed

lemma digit_minus:
  assumes "decimal_digit ch"
  shows "unat ((of_char ch :: byte) - 48) = (of_char ch :: nat) - 48" "unat ((of_char ch :: byte) - 48) < 10"
proof -
  have "(48 :: byte) \<le> of_char ch"
    using assms by (simp add: word_le_nat_alt unat_of_char decimal_digit_def)
  then have "unat ((of_char ch :: byte) - 48) = unat (of_char ch :: byte) - unat (48 :: byte)"
    by (rule unat_sub)
  then show "unat ((of_char ch :: byte) - 48) = (of_char ch :: nat) - 48"
    by (simp add: unat_of_char)
  moreover have "(of_char ch :: nat) - 48 < 10"
    using assms unfolding decimal_digit_def by arith
  ultimately show "unat ((of_char ch :: byte) - 48) < 10"
    by (simp only:)
qed

lemma digits_value_decimal:
  "list_all decimal_digit s \<Longrightarrow> \<exists>v. digits_value 10 s n = Some v \<and> v < (n + 1) * 10 ^ length s"
proof (induction s arbitrary: n)
  case Nil
  show ?case by simp
next
  case (Cons ch s)
  let ?d = "unat ((of_char ch :: byte) - 48)"
  from Cons.prems have "decimal_digit ch" by simp
  then have d: "?d < 10" by (rule digit_minus(2))
  from Cons.prems have "list_all decimal_digit s" by simp
  from Cons.IH [OF this, of "n * 10 + ?d"]
  obtain v where v: "digits_value 10 s (n * 10 + ?d) = Some v" "v < (n * 10 + ?d + 1) * 10 ^ length s"
    by blast
  from d have "(n * 10 + ?d + 1) * 10 ^ length s \<le> ((n + 1) * 10) * 10 ^ length s"
    by (intro mult_right_mono) simp_all
  with v(2) have "v < ((n + 1) * 10) * 10 ^ length s" by (rule less_le_trans)
  also have "\<dots> = (n + 1) * 10 ^ length (ch # s)" by (simp add: algebra_simps)
  finally have bound: "v < (n + 1) * 10 ^ length (ch # s)" .
  have "digits_value 10 (ch # s) n = Some v"
    using v(1) d by (simp add: Let_def)
  with bound show ?case by blast
qed

lemma digits_value_bits:
  "bit_string g \<Longrightarrow> digits_value 2 g n = Some (n * 2 ^ length g + bits_value g)"
proof (induction g arbitrary: n)
  case Nil
  show ?case by simp
next
  case (Cons ch g)
  then have ch: "ch = CHR ''0'' \<or> ch = CHR ''1''" and g: "bit_string g" by simp_all
  from ch have d: "unat ((of_char ch :: byte) - 48) = bit_of ch" "bit_of ch < 2"
    by (auto simp: bit_of_def)
  show ?case
    using Cons.IH [OF g, of "n * 2 + bit_of ch"] d
    by (simp add: Let_def bits_value_Cons algebra_simps)
qed

lemma strip_sign_bits: "bit_string g \<Longrightarrow> strip_sign g = (False, g)"
  by (cases g) (auto simp: strip_sign_def)

lemma binToInt_bits:
  assumes "bit_string g" "g \<noteq> []" "length g \<le> 62"
  shows "binToInt g = int (bits_value g)"
proof -
  have "bits_value g < 2 ^ length g" by (rule bits_value_less)
  also have "(2::nat) ^ length g \<le> 2 ^ 62" using assms(3) by (intro power_increasing) simp_all
  finally have "int (bits_value g) < 2 ^ 63" by simp
  then show ?thesis
    using assms(1,2)
    by (simp add: binToInt_def ParseInt_2_64_def strip_sign_bits digits_value_bits)
qed

lemma strip_sign_digit: "decimal_digit ch \<Longrightarrow> strip_sign (ch # s) = (False, ch # s)"
  by (auto simp: strip_sign_def decimal_digit_def)

lemma Atoi_digits:
  assumes "list_all decimal_digit s" "length s = 6"
  shows "\<exists>v. Atoi s = Some v"
proof -
  from assms obtain ch t where s: "s = ch # t" by (cases s) auto
  with assms have sg: "strip_sign s = (False, s)" by (simp add: strip_sign_digit)
  from digits_value_decimal [OF assms(1), of 0] assms(2)
  obtain v where v: "digits_value 10 s 0 = Some v" "v < 10 ^ 6" by auto
  then have "int v < 2 ^ 63" by simp
  with sg v s show ?thesis by (simp add: Atoi_def)
qed

section \<open>Packing bits into bytes\<close>

lemma packed_bytes_Nil [simp]: "packed_bytes [] = []"
  by (simp add: packed_bytes.simps)

lemma packed_bytes_nonempty: "s \<noteq> [] \<Longrightarrow> packed_bytes s = spec_byte (take 8 s) # packed_bytes (drop 8 s)"
  by (subst packed_bytes.simps) simp

lemma packed_bytes_short: "s \<noteq> [] \<Longrightarrow> length s \<le> 8 \<Longrightarrow> packed_bytes s = [spec_byte s]"
  by (subst packed_bytes.simps) simp

lemma packed_bytes_group: "length g = 8 \<Longrightarrow> packed_bytes (g @ s) = spec_byte g # packed_bytes s"
  by (subst packed_bytes.simps) (cases g, simp_all)

lemma spec_byte_full: "length g = 8 \<Longrightarrow> spec_byte g = of_nat (bits_value g)"
  by (simp add: spec_byte_def)

lemma div8_step: "0 < n \<Longrightarrow> Suc ((n - 8 + 7) div 8) = (n + 7) div (8::nat)"
proof (cases "8 \<le> n")
  case True
  then obtain m where "n = m + 8" by (metis le_add_diff_inverse2)
  then show ?thesis by simp
next
  case False
  assume "0 < n"
  with False have "n - 8 = 0" "(n + 7) div 8 = 1" by simp_all
  then show ?thesis by simp
qed

lemma length_packed_bytes: "length (packed_bytes s) = (length s + 7) div 8"
proof (induction s rule: packed_bytes.induct)
  case (1 s)
  show ?case
  proof (cases "s = []")
    case True
    then show ?thesis by simp
  next
    case False
    then have "0 < length s" by simp
    from div8_step [OF this] 1 [OF False] show ?thesis
      by (simp add: packed_bytes_nonempty [OF False])
  qed
qed

lemma nth_packed_bytes:
  "j < length (packed_bytes s) \<Longrightarrow> packed_bytes s ! j = spec_byte (take 8 (drop (8 * j) s))"
proof (induction s arbitrary: j rule: packed_bytes.induct)
  case (1 s)
  show ?case
  proof (cases "s = []")
    case True
    with 1(2) show ?thesis by simp
  next
    case False
    show ?thesis
    proof (cases j)
      case 0
      then show ?thesis by (simp add: packed_bytes_nonempty [OF False])
    next
      case (Suc k)
      with 1(2) have "k < length (packed_bytes (drop 8 s))"
        by (simp add: packed_bytes_nonempty [OF False])
      from 1(1) [OF False this] Suc show ?thesis
        by (simp add: packed_bytes_nonempty [OF False] add.commute)
    qed
  qed
qed

lemma packed_bytes_bytesToBin: "packed_bytes (bytesToBin vals) = vals"
  by (induction vals) (simp_all add: packed_bytes_group spec_byte_full)

lemma binToBytes_loop_acc:
  assumes "v = CHR ''0'' \<or> v = CHR ''1''" "length g \<noteq> 8"
  shows "binToBytes_loop (v # vs) (bs, i, of_nat (bits_value g), length g)
         = binToBytes_loop vs (bs, i, of_nat (bits_value (g @ [v])), length (g @ [v]))"
  using assms(2) of_char_bit_minus [OF assms(1)] by (simp add: push_bit_eq_mult mult.commute)

lemma binToBytes_loop_flush:
  assumes "v = CHR ''0'' \<or> v = CHR ''1''" "length g = 8" "i < length bs"
  shows "binToBytes_loop (v # vs) (bs, i, of_nat (bits_value g), length g)
         = binToBytes_loop vs (bs[i := of_nat (bits_value g)], i + 1, of_nat (bits_value [v]), length [v])"
  using assms(2,3) of_char_bit_minus [OF assms(1)] bits_value_simps(2) [of "[]" v] by simp

lemma binToBytes_loop_run:
  assumes "bit_string vs" "bit_string g" "length g \<le> 8"
    and "i + (length g + length vs + 7) div 8 \<le> length bs"
  shows "(case binToBytes_loop vs (bs, i, of_nat (bits_value g), length g) of
            None \<Rightarrow> None
          | Some (bs', i', current, count) \<Rightarrow>
              if count \<noteq> 0 then
                (if i' < length bs' then Some (take (i' + 1) (bs'[i' := push_bit (8 - count) current])) else None)
              else Some (take i' bs'))
         = Some (take i bs @ packed_bytes (g @ vs))"
  using assms
proof (induction vs arbitrary: bs i g)
  case Nil
  show ?case
  proof (cases "g = []")
    case True
    then show ?thesis by simp
  next
    case False
    then have "0 < length g" by simp
    then have "1 \<le> (length g + 7) div 8" using div8_step [of "length g"] by linarith
    with Nil.prems have i: "i < length bs" by simp
    have "push_bit (8 - length g) (of_nat (bits_value g) :: byte) = spec_byte g"
      by (simp add: spec_byte_def push_bit_eq_mult)
    with i False Nil.prems show ?thesis
      by (simp add: packed_bytes_short take_Suc_conv_app_nth)
  qed
next
  case (Cons v vs)
  from Cons.prems have v: "v = CHR ''0'' \<or> v = CHR ''1''" and vs: "bit_string vs" by simp_all
  show ?case
  proof (cases "length g = 8")
    case True
    with Cons.prems have i: "i < length bs" by simp
    have g1: "bit_string [v]" "length [v] \<le> 8" using v by simp_all
    from True Cons.prems have room: "(i + 1) + (length [v] + length vs + 7) div 8 \<le> length (bs[i := of_nat (bits_value g)])"
      by simp
    have pk: "take i bs @ packed_bytes (g @ v # vs) = take (i + 1) (bs[i := of_nat (bits_value g)]) @ packed_bytes ([v] @ vs)"
      using True i by (simp add: packed_bytes_group spec_byte_full take_Suc_conv_app_nth)
    show ?thesis
      unfolding binToBytes_loop_flush [OF v True i] pk
      by (rule Cons.IH [OF vs g1 room])
  next
    case False
    with Cons.prems have len: "length (g @ [v]) \<le> 8" by simp
    have g1: "bit_string (g @ [v])" using Cons.prems v by simp
    from Cons.prems have room: "i + (length (g @ [v]) + length vs + 7) div 8 \<le> length bs"
      by simp
    have pk: "g @ v # vs = (g @ [v]) @ vs" by simp
    show ?thesis
      unfolding binToBytes_loop_acc [OF v False] pk
      by (rule Cons.IH [OF vs g1 len room])
  qed
qed

lemma binToBytes_packed: "bit_string s \<Longrightarrow> binToBytes s = Some (packed_bytes s)"
proof -
  assume s: "bit_string s"
  have room: "0 + (length ([] :: string) + length s + 7) div 8 \<le> length (replicate (length s div 8 + 1) (0 :: byte))"
    by simp
  have e: "bit_string []" "length ([] :: string) \<le> 8" by simp_all
  from binToBytes_loop_run [OF s e room] show ?thesis
    by (simp add: binToBytes_def)
qed

lemma binToBytes_bytesToBin: "binToBytes (bytesToBin vals) = Some vals"
  by (simp add: binToBytes_packed packed_bytes_bytesToBin)

section \<open>The loops of the package\<close>

lemma chunkSplit_loop_map:
  "i \<le> l \<Longrightarrow>
   chunkSplit_loop s sz l i chunks = chunks @ map (\<lambda>j. take sz (drop (j * sz) s)) [i..<l]"
proof (induction s sz l i chunks rule: chunkSplit_loop.induct)
  case (1 s sz l i chunks)
  show ?case
  proof (cases "i < l")
    case True
    have "chunkSplit_loop s sz l i chunks
          = chunkSplit_loop s sz l (i + 1) (chunks @ [take sz (drop (i * sz) s)])"
      using True by (subst chunkSplit_loop.simps) simp
    also have "\<dots> = (chunks @ [take sz (drop (i * sz) s)]) @ map (\<lambda>j. take sz (drop (j * sz) s)) [i + 1..<l]"
      using 1(1) [OF True] True by simp
    also have "\<dots> = chunks @ map (\<lambda>j. take sz (drop (j * sz) s)) [i..<l]"
      using True by (simp add: upt_conv_Cons)
    finally show ?thesis .
  next
    case False
    with 1(2) have "i = l" by simp
    then show ?thesis by (subst chunkSplit_loop.simps) simp
  qed
qed

lemma chunkSplit_eq:
  "0 < sz \<Longrightarrow> chunkSplit s sz = Some (map (\<lambda>j. take sz (drop (j * sz) s)) [0..<length s div sz])"
  by (simp add: chunkSplit_def chunkSplit_loop_map)

lemma concat_chunks:
  "concat (map (\<lambda>j. take sz (drop (j * sz) s)) [0..<l]) = take (l * sz) s"
proof (induction l)
  case 0
  show ?case by simp
next
  case (Suc l)
  have "take (l * sz + sz) s = take (l * sz) s @ take sz (drop (l * sz) s)"
    by (rule take_add)
  with Suc show ?case by (simp add: add.commute)
qed

lemma dict_loop_notin: "w \<notin> set ws \<Longrightarrow> dict_loop ws i d w = d w"
  by (induction ws arbitrary: i d) auto

lemma dict_loop_distinct:
  "distinct ws \<Longrightarrow> k < length ws \<Longrightarrow> dict_loop ws i d (ws ! k) = Some (int (i + k))"
proof (induction ws arbitrary: i d k)
  case Nil
  then show ?case by simp
next
  case (Cons w ws)
  show ?case
  proof (cases k)
    case 0
    with Cons.prems show ?thesis by (simp add: dict_loop_notin)
  next
    case (Suc j)
    have "dict_loop ws (i + 1) (d(w \<mapsto> int i)) (ws ! j) = Some (int (i + 1 + j))"
      using Cons.prems Suc by (intro Cons.IH) simp_all
    with Suc show ?thesis by simp
  qed
qed

lemma dict_loop_range:
  "w \<in> set ws \<Longrightarrow> \<exists>k. dict_loop ws i d w = Some (int k) \<and> i \<le> k \<and> k < i + length ws"
proof (induction ws arbitrary: i d)
  case Nil
  then show ?case by simp
next
  case (Cons a ws)
  show ?case
  proof (cases "w \<in> set ws")
    case True
    from Cons.IH [OF True, of "i + 1" "d(a \<mapsto> int i)"]
    obtain k where "dict_loop ws (i + 1) (d(a \<mapsto> int i)) w = Some (int k)" "i + 1 \<le> k" "k < i + 1 + length ws"
      by blast
    then have "dict_loop (a # ws) i d w = Some (int k) \<and> i \<le> k \<and> k < i + length (a # ws)" by simp
    then show ?thesis by blast
  next
    case False
    with Cons.prems have "a = w" by simp
    with False have "dict_loop (a # ws) i d w = Some (int i) \<and> i \<le> i \<and> i < i + length (a # ws)"
      by (simp add: dict_loop_notin)
    then show ?thesis by blast
  qed
qed

lemma dict_loop_dom: "dict_loop ws i d w = None \<longleftrightarrow> w \<notin> set ws \<and> d w = None"
  by (induction ws arbitrary: i d) auto

lemma words_loop_run:
  assumes "list_all (\<lambda>wi. 0 \<le> binToInt wi \<and> binToInt wi < int (length (words m))) wis"
    and "i + length wis \<le> length ws"
  shows "words_loop m wis i ws
         = Some (take i ws @ map (\<lambda>wi. words m ! nat (binToInt wi)) wis @ drop (i + length wis) ws)"
  using assms
proof (induction wis arbitrary: i ws)
  case Nil
  show ?case by simp
next
  case (Cons wi wis)
  let ?w = "words m ! nat (binToInt wi)"
  from Cons.prems have i: "i < length ws" by simp
  with Cons.prems have st: "store_word m ws (int i) (binToInt wi) = Some (ws[i := ?w])"
    by (simp add: store_word_def)
  from Cons.prems have rest: "list_all (\<lambda>wi. 0 \<le> binToInt wi \<and> binToInt wi < int (length (words m))) wis"
    and room: "(i + 1) + length wis \<le> length (ws[i := ?w])" by simp_all
  from Cons.IH [OF rest room] st i show ?case
    by (simp add: take_Suc_conv_app_nth)
qed

lemma xor_loop_run:
  "i \<le> n \<Longrightarrow> n \<le> length h \<Longrightarrow> n \<le> length t \<Longrightarrow> length e = n \<Longrightarrow>
   xor_loop h t n i e = Some (take i e @ map (\<lambda>j. h ! j XOR t ! j) [i..<n])"
proof (induction h t n i e rule: xor_loop.induct)
  case (1 h t n i e)
  show ?case
  proof (cases "i < n")
    case True
    with 1(3-5) have ok: "i < length h \<and> i < length t \<and> i < length e" by simp
    have "xor_loop h t n i e = xor_loop h t n (i + 1) (e[i := h ! i XOR t ! i])"
      using True ok by (subst xor_loop.simps) simp
    also have "\<dots> = Some (take (i + 1) (e[i := h ! i XOR t ! i]) @ map (\<lambda>j. h ! j XOR t ! j) [i + 1..<n])"
      using 1(1) [OF True ok] True 1(3-5) by simp
    also have "take (i + 1) (e[i := h ! i XOR t ! i]) @ map (\<lambda>j. h ! j XOR t ! j) [i + 1..<n]
               = take i e @ map (\<lambda>j. h ! j XOR t ! j) [i..<n]"
      using True ok by (simp add: take_Suc_conv_app_nth upt_conv_Cons)
    finally show ?thesis .
  next
    case False
    with 1(2,5) have "i = n" "take i e = e" by simp_all
    then show ?thesis by (subst xor_loop.simps) simp
  qed
qed

lemma xor_loop_result:
  "n \<le> length h \<Longrightarrow> n \<le> length t \<Longrightarrow>
   xor_loop h t n 0 (replicate n 0) = Some (map (\<lambda>j. h ! j XOR t ! j) [0..<n])"
  using xor_loop_run [of 0 n h t "replicate n 0"] by simp

lemma xor_loop_panics:
  "i < n \<Longrightarrow> length h \<le> i \<or> length t \<le> i \<Longrightarrow> xor_loop h t n i e = None"
  by (subst xor_loop.simps) auto

section \<open>Renderings, again\<close>

lemma bits_of_Suc:
  "bits_of (Suc w) n = bits_of w (n div 2) @ [if odd n then CHR ''1'' else CHR ''0'']"
proof -
  have "map (\<lambda>j. if bit n (Suc w - 1 - j) then CHR ''1'' else CHR ''0'') [0..<w]
        = map (\<lambda>j. if bit (n div 2) (w - 1 - j) then CHR ''1'' else CHR ''0'') [0..<w]"
  proof (rule map_cong [OF refl])
    fix j assume "j \<in> set [0..<w]"
    then have "Suc w - 1 - j = Suc (w - 1 - j)" by auto
    then show "(if bit n (Suc w - 1 - j) then CHR ''1'' else CHR ''0'')
               = (if bit (n div 2) (w - 1 - j) then CHR ''1'' else CHR ''0'')"
      by (simp add: bit_Suc)
  qed
  then show ?thesis by (simp add: bits_of_def bit_0)
qed

lemma length_bits_of [simp]: "length (bits_of w n) = w"
  by (simp add: bits_of_def)

lemma bits_of_0 [simp]: "bits_of 0 n = []"
  by (simp add: bits_of_def)

lemma bit_string_bits_of [simp]: "bit_string (bits_of w n)"
  by (induction w arbitrary: n) (simp_all add: bits_of_Suc)

lemma bits_value_bits_of: "bits_value (bits_of w n) = n mod 2 ^ w"
proof (induction w arbitrary: n)
  case 0
  show ?case by (simp add: bits_of_def)
next
  case (Suc w)
  have "n mod 2 ^ Suc w = 2 * (n div 2 mod 2 ^ w) + n mod 2"
    by (simp add: mod_mult2_eq)
  with Suc [of "n div 2"] show ?case
    by (simp add: bits_of_Suc bit_of_def mod_2_eq_odd)
qed

lemma pad0_fmt_b_bits_of:
  assumes "0 < w" "n < 2 ^ w"
  shows "pad0 w (fmt_b n) = bits_of w n"
proof (rule bit_string_eqI)
  have "length (fmt_b n) \<le> w" using assms by (rule length_fmt_b)
  then show "length (pad0 w (fmt_b n)) = length (bits_of w n)"
    by (simp add: length_pad0)
  show "bits_value (pad0 w (fmt_b n)) = bits_value (bits_of w n)"
    using assms(2) by (simp add: bits_value_pad0 bits_value_fmt_b bits_value_bits_of)
qed (simp_all add: bit_string_pad0 bit_string_fmt_b)

lemma fmt_08b_bits_of: "fmt_08b b = bits_of 8 (unat b)"
proof -
  have "unat b < 2 ^ 8" using unsigned_less [of b] by simp
  then show ?thesis unfolding fmt_08b_def by (intro pad0_fmt_b_bits_of) simp_all
qed

lemma bytesToBin_spec_bits: "bytesToBin vals = spec_bits vals"
proof -
  have "fmt_08b = (\<lambda>b. bits_of 8 (unat b))" by (rule ext) (rule fmt_08b_bits_of)
  then show ?thesis by (simp add: bytesToBin_concat spec_bits_def)
qed

lemma intToBin_bits_of: "n < 2048 \<Longrightarrow> intToBin (int n) 11 = bits_of 11 n"
  by (simp add: intToBin_def pad0_fmt_b_bits_of)

lemma intToBin_bits_value:
  assumes "bit_string g" "length g = 11"
  shows "intToBin (int (bits_value g)) 11 = g"
proof -
  from assms have "g \<noteq> []" by auto
  from pad0_fmt_b_bits_value [OF assms(1) this] assms(2) show ?thesis
    by (simp add: intToBin_def)
qed

lemma count_text_fmt_d: "n \<in> word_counts \<Longrightarrow> fmt_d n = count_text n"
  by (auto simp: word_counts_def fmt_d_def count_text_def fmt_b_big fmt_d_nat.simps digit_char_def)

lemma Generate_input_canonical:
  "n \<in> word_counts \<Longrightarrow> Generate_input identifier password passcode n = canonical_message identifier password passcode n"
  by (simp add: Generate_input_def canonical_message_def count_text_fmt_d)

lemma Generate_salt_spec: "Generate_salt password passcode = spec_salt password passcode"
  by (simp add: Generate_salt_def spec_salt_def saltPrefixPassword_def saltPrefixPasscode_def)

section \<open>Generate, step by step\<close>

lemma strengths_cases:
  "s \<in> strengths \<longleftrightarrow> (\<exists>k. 4 \<le> k \<and> k \<le> 8 \<and> s = int (32 * k))"
proof
  assume "s \<in> strengths"
  then consider "s = int (32 * 8)" | "s = int (32 * 7)" | "s = int (32 * 6)" | "s = int (32 * 5)" | "s = int (32 * 4)"
    by (auto simp: strengths_def)
  then show "\<exists>k. 4 \<le> k \<and> k \<le> 8 \<and> s = int (32 * k)"
  proof cases
    case 1 then show ?thesis by (intro exI [of _ 8]) simp
  next
    case 2 then show ?thesis by (intro exI [of _ 7]) simp
  next
    case 3 then show ?thesis by (intro exI [of _ 6]) simp
  next
    case 4 then show ?thesis by (intro exI [of _ 5]) simp
  next
    case 5 then show ?thesis by (intro exI [of _ 4]) simp
  qed
next
  assume "\<exists>k. 4 \<le> k \<and> k \<le> 8 \<and> s = int (32 * k)"
  then obtain k :: nat where k: "4 \<le> k" "k \<le> 8" "s = int (32 * k)" by blast
  then have "k = 4 \<or> k = 5 \<or> k = 6 \<or> k = 7 \<or> k = 8" by arith
  with k(3) show "s \<in> strengths" by (auto simp: strengths_def)
qed

lemma word_counts_cases:
  "n \<in> word_counts \<longleftrightarrow> (\<exists>k. 4 \<le> k \<and> k \<le> 8 \<and> n = int (3 * k))"
proof
  assume "n \<in> word_counts"
  then consider "n = int (3 * 8)" | "n = int (3 * 7)" | "n = int (3 * 6)" | "n = int (3 * 5)" | "n = int (3 * 4)"
    by (auto simp: word_counts_def)
  then show "\<exists>k. 4 \<le> k \<and> k \<le> 8 \<and> n = int (3 * k)"
  proof cases
    case 1 then show ?thesis by (intro exI [of _ 8]) simp
  next
    case 2 then show ?thesis by (intro exI [of _ 7]) simp
  next
    case 3 then show ?thesis by (intro exI [of _ 6]) simp
  next
    case 4 then show ?thesis by (intro exI [of _ 5]) simp
  next
    case 5 then show ?thesis by (intro exI [of _ 4]) simp
  qed
next
  assume "\<exists>k. 4 \<le> k \<and> k \<le> 8 \<and> n = int (3 * k)"
  then obtain k :: nat where k: "4 \<le> k" "k \<le> 8" "n = int (3 * k)" by blast
  then have "k = 4 \<or> k = 5 \<or> k = 6 \<or> k = 7 \<or> k = 8" by arith
  with k(3) show "n \<in> word_counts" by (auto simp: word_counts_def)
qed

lemma sentenceStrengths_counts:
  "4 \<le> k \<Longrightarrow> k \<le> 8 \<Longrightarrow> sentenceStrengths (int (3 * k)) = int (32 * k)"
proof -
  assume "4 \<le> k" "k \<le> 8"
  then have "k = 4 \<or> k = 5 \<or> k = 6 \<or> k = 7 \<or> k = 8" by arith
  then show ?thesis by (auto simp: sentenceStrengths_def)
qed

lemma sentenceStrengths_other: "n \<notin> word_counts \<Longrightarrow> sentenceStrengths n = 0"
  by (simp add: sentenceStrengths_def word_counts_def)

lemma validateStrength_zero: "validateStrength 0 = Some (UnsupportedStrength 0)"
  by (simp add: validateStrength_def strengths_def)

lemma validateStrength_ok: "4 \<le> k \<Longrightarrow> k \<le> 8 \<Longrightarrow> validateStrength (int (32 * k)) = None"
  using strengths_cases [of "int (32 * k)"] by (auto simp: validateStrength_def)

text \<open>The 11-bit groups of a sentence of \<open>3 * k\<close> words over \<open>32 * k\<close> bits of entropy.\<close>


lemma chunk_props:
  assumes "bit_string s" "(j + 1) * 11 \<le> length s"
  shows "bit_string (take 11 (drop (j * 11) s))" "length (take 11 (drop (j * 11) s)) = 11"
    "binToInt (take 11 (drop (j * 11) s)) = int (bits_value (take 11 (drop (j * 11) s)))"
    "bits_value (take 11 (drop (j * 11) s)) < 2048"
proof -
  let ?g = "take 11 (drop (j * 11) s)"
  show b: "bit_string ?g" using assms(1) by (intro bit_string_take bit_string_drop)
  show l: "length ?g = 11" using assms(2) by simp
  then have "?g \<noteq> []" by auto
  with b l show "binToInt ?g = int (bits_value ?g)" by (intro binToInt_bits) simp_all
  from bits_value_less [of ?g] l show "bits_value ?g < 2048" by simp
qed

lemma group_props:
  assumes "bit_string g" "length g = 11"
  shows "binToInt g = int (bits_value g)" "bits_value g < 2048"
proof -
  from assms have "g \<noteq> []" by auto
  with assms show "binToInt g = int (bits_value g)" by (intro binToInt_bits) simp_all
  from bits_value_less [of g] assms(2) show "bits_value g < 2048" by simp
qed

lemma slice_to_nat: "n \<le> length s \<Longrightarrow> slice_to s (int n) = Some (take n s)"
  and slice_from_nat: "n \<le> length s \<Longrightarrow> slice_from s (int n) = Some (drop n s)"
  by (simp_all add: slice_to_def slice_from_def)

lemma checksum_run:
  "k \<le> 8 \<Longrightarrow> checksum c E (int k) = Some (take k (fmt_08b (sha256_Sum256 c E ! 0)))"
  by (simp add: checksum_def slice_to_nat)

lemma store_word_last:
  assumes "i = int (length xs)" "v = int n" "n < length (words m)"
  shows "store_word m (xs @ [y]) i v = Some (xs @ [words m ! n])"
  using assms by (simp add: store_word_def)

lemma Generate_words_run:
  assumes k: "4 \<le> k" "k \<le> 8" and E: "length E = 4 * k" and m: "length (words m) = 2048"
  shows "Generate_words c m E (int (32 * k))
         = Inr (map (\<lambda>g. words m ! bits_value g)
                  (map (\<lambda>j. take 11 (drop (j * 11) (take (33 * k - 11) (bytesToBin E)))) [0..<3 * k - 1]
                   @ [drop (33 * k - 11) (bytesToBin E) @ take k (fmt_08b (sha256_Sum256 c E ! 0))]))"
proof -
  let ?bins = "bytesToBin E"
  let ?head = "take (33 * k - 11) ?bins"
  let ?cs = "take k (fmt_08b (sha256_Sum256 c E ! 0))"
  let ?chunks = "map (\<lambda>j. take 11 (drop (j * 11) ?head)) [0..<3 * k - 1]"
  let ?last = "drop (33 * k - 11) ?bins @ ?cs"
  let ?look = "\<lambda>g. words m ! bits_value g"
  have lb: "length ?bins = 32 * k" using E by simp
  have lh: "length ?head = 33 * k - 11" using lb k by simp
  have ar: "int (32 * k) div bitChunkSizeEntropy = int k"
    "(int (32 * k) + int k) div bitChunkSizeBip39WordIndex = int (3 * k)"
    "int (32 * k) - (bitChunkSizeBip39WordIndex - int k) = int (33 * k - 11)"
    "nat bitChunkSizeBip39WordIndex = 11"
    using k by (simp_all add: bitChunkSizeEntropy_def bitChunkSizeBip39WordIndex_def)
  have s1: "slice_to ?bins (int (33 * k - 11)) = Some ?head"
    using lb k by (intro slice_to_nat) simp
  have "(33 * k - 11) div 11 = 3 * k - 1" using k by simp
  then have s2: "chunkSplit ?head 11 = Some ?chunks"
    using lh by (simp add: chunkSplit_eq)
  have chunk: "bit_string g \<and> length g = 11" if "g \<in> set ?chunks" for g
  proof -
    from that obtain j where j: "j < 3 * k - 1" "g = take 11 (drop (j * 11) ?head)" by auto
    from j(1) k have "(j + 1) * 11 \<le> length ?head" unfolding lh by simp
    with chunk_props(1,2) [of ?head j] j(2) show ?thesis by (simp add: bit_string_take)
  qed
  have ok: "list_all (\<lambda>wi. 0 \<le> binToInt wi \<and> binToInt wi < int (length (words m))) ?chunks"
    unfolding list_all_iff
  proof
    fix g assume "g \<in> set ?chunks"
    from chunk [OF this] group_props [of g] m
    show "0 \<le> binToInt g \<and> binToInt g < int (length (words m))" by simp
  qed
  have look: "map (\<lambda>wi. words m ! nat (binToInt wi)) ?chunks = map ?look ?chunks"
  proof (rule map_cong [OF refl])
    fix g assume "g \<in> set ?chunks"
    from chunk [OF this] group_props(1) [of g]
    show "words m ! nat (binToInt g) = ?look g" by simp
  qed
  have lc: "length ?chunks = 3 * k - 1" by simp
  have "0 + length ?chunks \<le> length (replicate (3 * k) ([] :: string))" by simp
  from words_loop_run [OF ok this]
  have s4: "words_loop m ?chunks 0 (replicate (3 * k) []) = Some (map ?look ?chunks @ [[]])"
    unfolding look using k by (simp del: map_map)
  have s5: "checksum c E (int k) = Some ?cs" using k(2) by (rule checksum_run)
  have s6: "slice_from ?bins (int (33 * k - 11)) = Some (drop (33 * k - 11) ?bins)"
    using lb k by (intro slice_from_nat) simp
  have last: "bit_string ?last" "length ?last = 11"
    using lb k by (simp_all add: bit_string_take bit_string_drop)
  have s7: "store_word m (map ?look ?chunks @ [[]]) (int (3 * k) - 1) (binToInt ?last)
            = Some (map ?look ?chunks @ [?look ?last])"
  proof (rule store_word_last)
    show "int (3 * k) - 1 = int (length (map ?look ?chunks))" using k by simp
    show "binToInt ?last = int (bits_value ?last)" by (rule group_props(1) [OF last])
    show "bits_value ?last < length (words m)" using group_props(2) [OF last] m by simp
  qed
  have s3: "(if int (3 * k) < 0 then None else Some (replicate (nat (int (3 * k))) ([] :: string)))
            = Some (replicate (3 * k) [])" by simp
  show ?thesis
    unfolding Generate_words_def Let_def ar s1 or_panic_def option.case s2 s3 s4 s5 s6 s7
    by (simp del: map_map)
qed

lemma New_Inr:
  assumes "New wl = Inr m"
  shows "length wl = 2048" "words m = wl" "dict m = dict_loop wl 0 Map.empty"
  using assms by (auto simp: New_def split: if_splits)

lemma scrypt_params_package: "scrypt_params_ok (2 ^ 18) 8 1"
  by (simp add: scrypt_params_ok_def maxInt_def)

lemma Generate_entropy_run:
  fixes idn password passcode :: string and n :: int and k :: nat and c :: crypto
  assumes c: "pbkdf2_contract c" "scrypt_contract c" and k: "4 \<le> k" "k \<le> 8"
  defines "A \<equiv> pbkdf2_Key c (bytes_of (Generate_input idn password passcode n))
                  (bytes_of (Generate_salt password passcode)) (2 ^ 18) (int (4 * k)) sha512_New"
    and "B \<equiv> fst (scrypt_Key c (bytes_of (Generate_input idn password passcode n))
                  (bytes_of (Generate_salt password passcode)) (2 ^ 18) 8 1 (int (4 * k)))"
  shows "length A = 4 * k" "length B = 4 * k"
    "Generate_entropy c idn password passcode n (int (32 * k)) = Some (map (\<lambda>j. A ! j XOR B ! j) [0..<4 * k])"
proof -
  have nn: "(0::int) \<le> int (4 * k)" by simp
  show lA: "length A = 4 * k"
    using c(1) nn unfolding pbkdf2_contract_def A_def by (metis nat_int)
  have "\<forall>pw salt. length (fst (scrypt_Key c pw salt (2 ^ 18) 8 1 (int (4 * k)))) = nat (int (4 * k))"
    using c(2) nn scrypt_params_package unfolding scrypt_contract_def by metis
  then show lB: "length B = 4 * k" unfolding B_def by simp
  have d: "int (32 * k) div bitChunkSizeOneByte = int (4 * k)"
    by (simp add: bitChunkSizeOneByte_def)
  have xl: "xor_loop A B (4 * k) 0 (replicate (4 * k) 0) = Some (map (\<lambda>j. A ! j XOR B ! j) [0..<4 * k])"
    using lA lB by (intro xor_loop_result) simp_all
  have e: "Generate_entropy c idn password passcode n (int (32 * k))
           = (if int (4 * k) < 0 then None
              else xor_loop A B (nat (int (4 * k))) 0 (replicate (nat (int (4 * k))) 0))"
    unfolding Generate_entropy_def Let_def d A_def B_def by (rule refl)
  show "Generate_entropy c idn password passcode n (int (32 * k)) = Some (map (\<lambda>j. A ! j XOR B ! j) [0..<4 * k])"
    unfolding e nat_int xl by simp
qed

lemma Generate_accepted:
  assumes "2 \<le> length idn" "12 \<le> length password" "length passcode = 6" "Atoi passcode = Some v"
    and "4 \<le> k" "k \<le> 8" "n = int (3 * k)"
  shows "Generate c m idn password passcode n
         = or_panic (Generate_entropy c idn password passcode n (int (32 * k)))
             (\<lambda>entropy. Generate_words c m entropy (int (32 * k)))"
proof -
  have s: "sentenceStrengths n = int (32 * k)"
    unfolding assms(7) using assms(5,6) by (rule sentenceStrengths_counts)
  have vs: "validateStrength (int (32 * k)) = None"
    using assms(5,6) by (rule validateStrength_ok)
  show ?thesis
    unfolding Generate_def Let_def s vs assms(4) using assms(1-3)
    by (simp add: inputIdentifierMinLength_def inputPasswordMinLength_def inputPasscodeLength_def)
qed

text \<open>
  The sentence of \<open>Generate\<close> on accepted inputs: the words at the values of the 11-bit
  groups of the entropy bits followed by the checksum bits.
\<close>

lemma Generate_sentence:
  fixes idn password passcode :: string and n :: int and k :: nat and c :: crypto
  assumes a: "2 \<le> length idn" "12 \<le> length password" "length passcode = 6" "Atoi passcode = Some v"
    and k: "4 \<le> k" "k \<le> 8" "n = int (3 * k)"
    and c: "pbkdf2_contract c" "scrypt_contract c" and m: "length (words m) = 2048"
  defines "A \<equiv> pbkdf2_Key c (bytes_of (Generate_input idn password passcode n))
                  (bytes_of (Generate_salt password passcode)) (2 ^ 18) (int (4 * k)) sha512_New"
    and "B \<equiv> fst (scrypt_Key c (bytes_of (Generate_input idn password passcode n))
                  (bytes_of (Generate_salt password passcode)) (2 ^ 18) 8 1 (int (4 * k)))"
  defines "E \<equiv> map (\<lambda>j. A ! j XOR B ! j) [0..<4 * k]"
  shows "Generate_entropy c idn password passcode n (int (32 * k)) = Some E"
    and "Generate c m idn password passcode n
         = Inr (map (\<lambda>g. words m ! bits_value g)
                  (map (\<lambda>j. take 11 (drop (j * 11) (take (33 * k - 11) (bytesToBin E)))) [0..<3 * k - 1]
                   @ [drop (33 * k - 11) (bytesToBin E) @ take k (fmt_08b (sha256_Sum256 c E ! 0))]))"
proof -
  show e: "Generate_entropy c idn password passcode n (int (32 * k)) = Some E"
    unfolding E_def A_def B_def using c k(1,2) by (rule Generate_entropy_run(3))
  have "length E = 4 * k" by (simp add: E_def)
  from Generate_words_run [OF k(1,2) this m]
  show "Generate c m idn password passcode n
         = Inr (map (\<lambda>g. words m ! bits_value g)
                  (map (\<lambda>j. take 11 (drop (j * 11) (take (33 * k - 11) (bytesToBin E)))) [0..<3 * k - 1]
                   @ [drop (33 * k - 11) (bytesToBin E) @ take k (fmt_08b (sha256_Sum256 c E ! 0))]))"
    unfolding Generate_accepted [OF a k] e or_panic_def option.case .
qed

lemma valid_inputs_accepted:
  assumes "valid_inputs idn password passcode n"
  shows "2 \<le> length idn" "12 \<le> length password" "length passcode = 6" "\<exists>v. Atoi passcode = Some v"
    "\<exists>k. 4 \<le> k \<and> k \<le> 8 \<and> n = int (3 * k)"
proof -
  from assms show len: "2 \<le> length idn" "12 \<le> length password" "length passcode = 6"
    by (simp_all add: valid_inputs_def valid_passcode_def)
  from assms have "list_all decimal_digit passcode"
    by (simp add: valid_inputs_def valid_passcode_def)
  from Atoi_digits [OF this len(3)] show "\<exists>v. Atoi passcode = Some v" .
  from assms have "n \<in> word_counts" by (simp add: valid_inputs_def)
  then show "\<exists>k. 4 \<le> k \<and> k \<le> 8 \<and> n = int (3 * k)" by (simp add: word_counts_cases)
qed

lemma concat_groups:
  assumes "4 \<le> k" "k \<le> 8" "length bins = 32 * k"
  shows "concat (map (\<lambda>j. take 11 (drop (j * 11) (take (33 * k - 11) bins))) [0..<3 * k - 1]
                 @ [drop (33 * k - 11) bins @ cs]) = bins @ cs"
proof -
  have "(3 * k - 1) * 11 = 33 * k - 11" using assms(1) by simp
  then have "concat (map (\<lambda>j. take 11 (drop (j * 11) (take (33 * k - 11) bins))) [0..<3 * k - 1])
        = take (33 * k - 11) bins"
    using concat_chunks [of 11 "take (33 * k - 11) bins" "3 * k - 1"] by simp
  then show ?thesis by simp
qed

lemma groups_wellformed:
  assumes "4 \<le> k" "k \<le> 8" "length bins = 32 * k" "bit_string bins" "bit_string cs" "length cs = k"
  shows "list_all (\<lambda>g. bit_string g \<and> length g = 11)
           (map (\<lambda>j. take 11 (drop (j * 11) (take (33 * k - 11) bins))) [0..<3 * k - 1]
            @ [drop (33 * k - 11) bins @ cs])"
proof -
  let ?head = "take (33 * k - 11) bins"
  have lh: "length ?head = 33 * k - 11" using assms(1-3) by simp
  have bh: "bit_string ?head" using assms(4) by (rule bit_string_take)
  have "\<forall>g \<in> set (map (\<lambda>j. take 11 (drop (j * 11) ?head)) [0..<3 * k - 1]). bit_string g \<and> length g = 11"
  proof
    fix g assume "g \<in> set (map (\<lambda>j. take 11 (drop (j * 11) ?head)) [0..<3 * k - 1])"
    then obtain j where j: "j < 3 * k - 1" "g = take 11 (drop (j * 11) ?head)" by auto
    from j(1) assms(1) have "(j + 1) * 11 \<le> length ?head" unfolding lh by simp
    from chunk_props(1,2) [OF bh this] show "bit_string g \<and> length g = 11"
      unfolding j(2) by (rule conjI)
  qed
  then have a: "list_all (\<lambda>g. bit_string g \<and> length g = 11) (map (\<lambda>j. take 11 (drop (j * 11) ?head)) [0..<3 * k - 1])"
    unfolding list_all_iff .
  have "bit_string (drop (33 * k - 11) bins)" using assms(4) by (rule bit_string_drop)
  moreover have "length (drop (33 * k - 11) bins @ cs) = 11" using assms(1,2,3,6) by simp
  ultimately have b: "list_all (\<lambda>g. bit_string g \<and> length g = 11) [drop (33 * k - 11) bins @ cs]"
    using assms(5) by simp
  from a b show ?thesis unfolding list_all_append by (rule conjI)
qed

lemma validateWordsPrecense_find:
  "validateWordsPrecense m ws
   = (case find (\<lambda>w. dict m w = None) ws of None \<Rightarrow> None | Some w \<Rightarrow> Some (UnrecognizedWord w))"
  by (induction ws) (auto split: option.splits)

lemma buildBins_generated:
  assumes m: "New wl = Inr m" and d: "distinct wl" and s: "strength \<in> strengths"
    and gs: "list_all (\<lambda>g. bit_string g \<and> length g = 11) gs"
  shows "buildBins m strength (map (\<lambda>g. words m ! bits_value g) gs) = Inr (concat gs)"
proof -
  note M = New_Inr [OF m]
  have look: "dict m (words m ! bits_value g) = Some (int (bits_value g))
              \<and> intToBin (dict_at m (words m ! bits_value g)) 11 = g" if "g \<in> set gs" for g
  proof -
    from that gs have g: "bit_string g" "length g = 11" by (simp_all add: list_all_iff)
    from group_props(2) [OF g] M(1) have "bits_value g < length wl" by simp
    from dict_loop_distinct [OF d this, of 0 Map.empty]
    have "dict m (words m ! bits_value g) = Some (int (bits_value g))" by (simp add: M)
    then show ?thesis by (simp add: dict_at_def intToBin_bits_value [OF g])
  qed
  have "find (\<lambda>w. dict m w = None) (map (\<lambda>g. words m ! bits_value g) gs) = None"
    using look by (auto simp: find_None_iff)
  then have v: "validateWordsPrecense m (map (\<lambda>g. words m ! bits_value g) gs) = None"
    by (simp add: validateWordsPrecense_find)
  have "concat (map (\<lambda>w. intToBin (dict_at m w) 11) (map (\<lambda>g. words m ! bits_value g) gs)) = concat gs"
    using look by (induction gs) simp_all
  with v s show ?thesis
    by (simp add: buildBins_def validateStrength_def foldl_append_concat bitChunkSizeBip39WordIndex_def del: map_map)
qed

lemma decode_run:
  assumes k: "4 \<le> k" "k \<le> 8" and E: "length E = 4 * k"
    and b: "buildBins m (int (32 * k)) ws = Inr (bytesToBin E @ take k (fmt_08b (sha256_Sum256 c E ! 0)))"
    and l: "length ws = 3 * k"
  shows "CalculateEntropy c m ws = Inr E" "IsValid c m ws = Inr True"
proof -
  let ?cs = "take k (fmt_08b (sha256_Sum256 c E ! 0))"
  have s: "sentenceStrengths (int (length ws)) = int (32 * k)"
    unfolding l using k by (rule sentenceStrengths_counts)
  have lb: "length (bytesToBin E) = 32 * k" using E by simp
  have s1: "slice_to (bytesToBin E @ ?cs) (int (32 * k)) = Some (bytesToBin E)"
    using slice_to_nat [of "32 * k" "bytesToBin E @ ?cs"] lb by simp
  have s2: "slice_from (bytesToBin E @ ?cs) (int (32 * k)) = Some ?cs"
    using slice_from_nat [of "32 * k" "bytesToBin E @ ?cs"] lb by simp
  have d: "int (32 * k) div bitChunkSizeEntropy = int k" by (simp add: bitChunkSizeEntropy_def)
  have s3: "checksum c E (int k) = Some ?cs" using k(2) by (rule checksum_run)
  show "CalculateEntropy c m ws = Inr E"
    unfolding CalculateEntropy_def Let_def s b sum.case s1 or_panic_def option.case binToBytes_bytesToBin d s3 s2
    by simp
  show "IsValid c m ws = Inr True"
    unfolding IsValid_def Let_def s b sum.case s1 or_panic_def option.case binToBytes_bytesToBin d s3 s2
    by simp
qed

text \<open>Decoding the sentence of \<open>Generate\<close> gives the entropy back.\<close>

lemma sentence_decodes:
  fixes c :: crypto and m :: mnemonicer and E :: "byte list" and k :: nat
  assumes m: "New wl = Inr m" and d: "distinct wl" and k: "4 \<le> k" "k \<le> 8" and E: "length E = 4 * k"
  defines "ws \<equiv> map (\<lambda>g. words m ! bits_value g)
                  (map (\<lambda>j. take 11 (drop (j * 11) (take (33 * k - 11) (bytesToBin E)))) [0..<3 * k - 1]
                   @ [drop (33 * k - 11) (bytesToBin E) @ take k (fmt_08b (sha256_Sum256 c E ! 0))])"
  shows "CalculateEntropy c m ws = Inr E" "IsValid c m ws = Inr True" "length ws = 3 * k"
proof -
  let ?cs = "take k (fmt_08b (sha256_Sum256 c E ! 0))"
  have lb: "length (bytesToBin E) = 32 * k" using E by simp
  have cs: "bit_string ?cs" "length ?cs = k" using k by (simp_all add: bit_string_take)
  have s: "int (32 * k) \<in> strengths" using k strengths_cases by blast
  show l: "length ws = 3 * k" using k by (simp add: ws_def)
  have "buildBins m (int (32 * k)) ws = Inr (bytesToBin E @ ?cs)"
    unfolding ws_def
    using buildBins_generated [OF m d s groups_wellformed [OF k lb bit_string_bytesToBin cs]]
    unfolding concat_groups [OF k lb] .
  from decode_run [OF k E this l]
  show "CalculateEntropy c m ws = Inr E" "IsValid c m ws = Inr True" .
qed


section \<open>The instance meets the hypotheses\<close>

lemma example_sha256: "sha256_contract example_crypto"
  by (simp add: sha256_contract_def example_crypto_def)

lemma length_take_padded: "length (take n (a @ b @ replicate n x)) = n"
  by simp

lemma example_pbkdf2: "pbkdf2_contract example_crypto"
  unfolding pbkdf2_contract_def example_crypto_def
  by (simp only: crypto.simps length_take_padded) simp

lemma example_scrypt: "scrypt_contract example_crypto"
  unfolding scrypt_contract_def
proof (intro allI impI)
  fix pw salt :: "byte list" and N r p keyLen :: int
  assume "0 \<le> keyLen"
  show "if scrypt_params_ok N r p
        then snd (scrypt_Key example_crypto pw salt N r p keyLen) = None \<and>
             length (fst (scrypt_Key example_crypto pw salt N r p keyLen)) = nat keyLen
        else snd (scrypt_Key example_crypto pw salt N r p keyLen) \<noteq> None \<and>
             fst (scrypt_Key example_crypto pw salt N r p keyLen) = []"
  proof (cases "scrypt_params_ok N r p")
    case True
    then show ?thesis
      unfolding example_crypto_def by (simp only: crypto.simps if_True fst_conv snd_conv length_take_padded)
  next
    case False
    then show ?thesis by (simp add: example_crypto_def)
  qed
qed

lemma example_crypto_contract: "crypto_contract example_crypto"
  by (simp add: crypto_contract_def example_sha256 example_pbkdf2 example_scrypt)

lemma example_words_length: "length example_words = 2048"
  by (simp add: example_words_def)

lemma example_words_distinct: "distinct example_words"
proof -
  have "inj fmt_b" by (rule inj_on_inverseI [of _ bits_value]) (rule bits_value_fmt_b)
  then have "inj_on fmt_b (set [0..<2048])" by (rule inj_on_subset) simp
  then show ?thesis by (simp add: example_words_def distinct_map)
qed

lemma example_New: "New example_words = Inr example_mnemonicer"
  by (simp add: New_def example_words_length example_mnemonicer_def)

lemma example_words_nth: "n < 2048 \<Longrightarrow> example_words ! n = fmt_b n"
  by (simp add: example_words_def)

lemma example_words_mem: "n < 2048 \<Longrightarrow> fmt_b n \<in> set example_words"
  by (simp add: example_words_def)

lemma example_words_bits: "w \<in> set example_words \<Longrightarrow> bit_string w"
  by (auto simp: example_words_def bit_string_fmt_b)

lemma fmt_b_examples: "fmt_b 0 = ''0''" "fmt_b 5 = ''101''" "fmt_b 93 = ''1011101''"
  by (simp_all add: fmt_b.simps)

lemma example_members: "''0'' \<in> set example_words" "''101'' \<in> set example_words" "''zoo'' \<notin> set example_words"
proof -
  show "''0'' \<in> set example_words" using example_words_mem [of 0] by (simp add: fmt_b_examples)
  show "''101'' \<in> set example_words" using example_words_mem [of 5] by (simp add: fmt_b_examples)
  show "''zoo'' \<notin> set example_words" using example_words_bits [of "''zoo''"] by auto
qed

lemma example_dict_at: "n < 2048 \<Longrightarrow> dict_at example_mnemonicer (fmt_b n) = int n"
  using dict_loop_distinct [OF example_words_distinct, of n 0 Map.empty]
  by (simp add: dict_at_def example_mnemonicer_def example_words_length example_words_nth)

lemma example_indices: "dict_at example_mnemonicer ''0'' = 0" "dict_at example_mnemonicer ''101'' = 5"
  using example_dict_at [of 0] example_dict_at [of 5] by (simp_all add: fmt_b_examples)

lemma pad0_examples:
  "pad0 11 ''0'' = ''00000000000''" "pad0 11 ''101'' = ''00000000101''"
  "pad0 8 ''0'' = ''00000000''" "pad0 8 ''1011101'' = ''01011101''"
  by (simp_all add: pad0_def eval_nat_numeral)

lemma bits_of_examples: "bits_of 11 0 = ''00000000000''" "bits_of 11 5 = ''00000000101''"
  using pad0_fmt_b_bits_of [of 11 0] pad0_fmt_b_bits_of [of 11 5]
  unfolding fmt_b_examples pad0_examples by simp_all

lemma fmt_08b_examples: "fmt_08b 0 = ''00000000''" "fmt_08b 93 = ''01011101''"
  unfolding fmt_08b_def by (simp_all add: fmt_b_examples pad0_examples)

lemma example_checksum:
  "checksum example_crypto [0, 0, 0, 0, 0, 0, 0, 0, 0, 0, 0, 0, 0, 0, 0, 0] 4 = Some ''0101''"
proof -
  have "sha256_Sum256 example_crypto [0, 0, 0, 0, 0, 0, 0, 0, 0, 0, 0, 0, 0, 0, 0, 0] ! 0 = (93 :: byte)"
    by (simp add: example_crypto_def)
  then show ?thesis by (simp add: checksum_def slice_to_def fmt_08b_examples)
qed

lemma packed_zeros:
  "packed_bytes (replicate 128 CHR ''0'') = [0, 0, 0, 0, 0, 0, 0, 0, 0, 0, 0, 0, 0, 0, 0, 0]"
proof -
  have "bytesToBin [0, 0, 0, 0, 0, 0, 0, 0, 0, 0, 0, 0, 0, 0, 0, 0] = replicate 128 CHR ''0''"
    unfolding bytesToBin_simps fmt_08b_examples by (simp add: eval_nat_numeral)
  then show ?thesis
    using packed_bytes_bytesToBin [of "[0, 0, 0, 0, 0, 0, 0, 0, 0, 0, 0, 0, 0, 0, 0, 0]"] by simp
qed

lemma example_bits:
  "concat (map (\<lambda>w. bits_of 11 (nat (dict_at example_mnemonicer w)))
       [''0'', ''0'', ''0'', ''0'', ''0'', ''0'', ''0'', ''0'', ''0'', ''0'', ''0'', w])
   = replicate 121 CHR ''0'' @ bits_of 11 (nat (dict_at example_mnemonicer w))"
  unfolding list.map concat.simps example_indices nat_0 bits_of_examples
  by (simp add: eval_nat_numeral)

lemma take_drop_zeros:
  "length s = 11 \<Longrightarrow> take 128 (replicate 121 CHR ''0'' @ s) = replicate 121 CHR ''0'' @ take 7 s"
  "length s = 11 \<Longrightarrow> drop 128 (replicate 121 CHR ''0'' @ s) = drop 7 s"
  by simp_all

lemma zeros_128: "replicate 121 CHR ''0'' @ ''0000000'' = replicate 128 CHR ''0''"
proof -
  have "''0000000'' = replicate 7 CHR ''0''" by (simp add: eval_nat_numeral)
  then show ?thesis by (simp add: replicate_add [symmetric] del: replicate_Suc)
qed

lemma example_split:
  "take 128 (replicate 121 CHR ''0'' @ ''00000000101'') = replicate 128 CHR ''0''"
  "drop 128 (replicate 121 CHR ''0'' @ ''00000000101'') = ''0101''"
  "take 128 (replicate 121 CHR ''0'' @ ''00000000000'') = replicate 128 CHR ''0''"
  "drop 128 (replicate 121 CHR ''0'' @ ''00000000000'') = ''0000''"
  by (simp_all add: take_drop_zeros zeros_128)

section \<open>The properties of the specification\<close>

text \<open>
  C4. For every entropy byte sequence and every size in 4..8, \<open>checksum\<close> returns the
  first \<open>size\<close> bits of the 8-bit rendering, most significant bit first, of the first
  byte of the SHA-256 digest of the entropy, and the result has exactly \<open>size\<close> bits.
\<close>

theorem checksum_first_bits:
  assumes "sz \<in> {4, 5, 6, 7, 8}"
  shows "\<exists>bits. checksum c entropy sz = Some bits
           \<and> bits = take (nat sz) (bits_of 8 (unat (sha256_Sum256 c entropy ! 0)))
           \<and> length bits = nat sz"
proof -
  from assms have "0 \<le> sz" "sz \<le> 8" by auto
  then show ?thesis
    by (simp add: checksum_def slice_to_def fmt_08b_bits_of)
qed

theorem checksum_first_bits_witness:
  "(5 :: int) \<in> {4, 5, 6, 7, 8}
   \<and> (\<exists>bits. checksum example_crypto [1, 2, 3] 5 = Some bits
          \<and> bits = take 5 (bits_of 8 (unat (sha256_Sum256 example_crypto [1, 2, 3] ! 0)))
          \<and> length bits = 5)"
proof -
  have h: "(5 :: int) \<in> {4, 5, 6, 7, 8}" by simp
  from checksum_first_bits [OF h, of example_crypto "[1, 2, 3]"] h show ?thesis
    by simp
qed

text \<open>
  C9. For every sentence and passphrase (the empty one too), \<open>GenerateSeed\<close> returns, with
  no error, the 64 bytes of PBKDF2 with HMAC-SHA512 on the sentence, the salt
  \<open>mnemonic\<close> followed by the passphrase, and 2048 iterations; \<open>GenerateSeed32\<close> returns
  the 32 bytes of the same construction with 4096 iterations.
\<close>

theorem GenerateSeed_pbkdf2:
  assumes "pbkdf2_contract c"
  shows "GenerateSeed c m sentence passphrase
           = Inr (pbkdf2_Key c (bytes_of sentence) (bytes_of (''mnemonic'' @ passphrase)) 2048 64 sha512_New)
         \<and> length (pbkdf2_Key c (bytes_of sentence) (bytes_of (''mnemonic'' @ passphrase)) 2048 64 sha512_New) = 64
         \<and> GenerateSeed32 c m sentence passphrase
           = Inr (pbkdf2_Key c (bytes_of sentence) (bytes_of (''mnemonic'' @ passphrase)) 4096 32 sha512_New)
         \<and> length (pbkdf2_Key c (bytes_of sentence) (bytes_of (''mnemonic'' @ passphrase)) 4096 32 sha512_New) = 32"
  using assms
  by (simp add: GenerateSeed_def GenerateSeed32_def saltPrefixMnemonic_def pbkdf2_contract_def)

theorem GenerateSeed_pbkdf2_witness:
  "pbkdf2_contract example_crypto
   \<and> (\<exists>seed. GenerateSeed example_crypto example_mnemonicer ''edge defense'' [] = Inr seed \<and> length seed = 64)
   \<and> (\<exists>seed. GenerateSeed32 example_crypto example_mnemonicer ''edge defense'' [] = Inr seed \<and> length seed = 32)"
  using GenerateSeed_pbkdf2 [OF example_pbkdf2, of example_mnemonicer "''edge defense''" "[]"] example_pbkdf2
  by simp
lemma example_valid_inputs: "valid_inputs ''te'' ''paSZW0rD!.1234'' ''101938'' 12"
  by (simp add: valid_inputs_def valid_passcode_def decimal_digit_def word_counts_def)

text \<open>
  C1. For every identifier, password, passcode and word count that satisfy the
  preconditions of \<open>Generate\<close>, \<open>IsValid\<close> on the sentence that \<open>Generate\<close> returns is
  true with no error, and \<open>CalculateEntropy\<close> on it returns, with no error, the
  \<open>strength / 8\<close> entropy bytes that \<open>Generate\<close> derived.
  The mnemonicer is one that \<open>New\<close> built from a list of distinct words (the invariant of
  the dictionary), and the libraries meet their contracts.
\<close>

theorem Generate_roundtrip:
  assumes m: "New wl = Inr m" and d: "distinct wl" and c: "crypto_contract c"
    and v: "valid_inputs idn password passcode wordCount"
  shows "\<exists>ws E. Generate c m idn password passcode wordCount = Inr ws
           \<and> IsValid c m ws = Inr True \<and> CalculateEntropy c m ws = Inr E
           \<and> Generate_entropy c idn password passcode wordCount (sentenceStrengths wordCount) = Some E
           \<and> int (length E) = sentenceStrengths wordCount div 8
           \<and> int (length ws) = wordCount"
proof -
  from valid_inputs_accepted [OF v] obtain a k where
    a: "2 \<le> length idn" "12 \<le> length password" "length passcode = 6" "Atoi passcode = Some a"
    and k: "4 \<le> k" "k \<le> 8" "wordCount = int (3 * k)" by blast
  from c have pk: "pbkdf2_contract c" and sk: "scrypt_contract c" by (simp_all add: crypto_contract_def)
  have lw: "length (words m) = 2048" using New_Inr [OF m] by simp
  have s: "sentenceStrengths wordCount = int (32 * k)"
    unfolding k(3) using k(1,2) by (rule sentenceStrengths_counts)
  define E where "E = map (\<lambda>j. pbkdf2_Key c (bytes_of (Generate_input idn password passcode wordCount))
                  (bytes_of (Generate_salt password passcode)) (2 ^ 18) (int (4 * k)) sha512_New ! j
               XOR fst (scrypt_Key c (bytes_of (Generate_input idn password passcode wordCount))
                  (bytes_of (Generate_salt password passcode)) (2 ^ 18) 8 1 (int (4 * k))) ! j) [0..<4 * k]"
  have lE: "length E = 4 * k" by (simp add: E_def)
  have l8: "int (length E) = sentenceStrengths wordCount div 8" unfolding s lE by simp
  note ge = Generate_sentence(1) [OF a k pk sk lw, folded E_def, folded s]
  note g = Generate_sentence(2) [OF a k pk sk lw, folded E_def]
  note r = sentence_decodes [OF m d k(1,2) lE, of c]
  have lws: "int (length (map (\<lambda>g. words m ! bits_value g)
                  (map (\<lambda>j. take 11 (drop (j * 11) (take (33 * k - 11) (bytesToBin E)))) [0..<3 * k - 1]
                   @ [drop (33 * k - 11) (bytesToBin E) @ take k (fmt_08b (sha256_Sum256 c E ! 0))]))) = wordCount"
    unfolding r(3) k(3) ..
  from g r(1,2) ge l8 lws show ?thesis by blast
qed

theorem Generate_roundtrip_witness:
  "New example_words = Inr example_mnemonicer \<and> distinct example_words \<and> crypto_contract example_crypto
   \<and> valid_inputs ''te'' ''paSZW0rD!.1234'' ''101938'' 12
   \<and> (\<exists>ws E. Generate example_crypto example_mnemonicer ''te'' ''paSZW0rD!.1234'' ''101938'' 12 = Inr ws
          \<and> IsValid example_crypto example_mnemonicer ws = Inr True
          \<and> CalculateEntropy example_crypto example_mnemonicer ws = Inr E
          \<and> Generate_entropy example_crypto ''te'' ''paSZW0rD!.1234'' ''101938'' 12 128 = Some E
          \<and> length E = 16 \<and> length ws = 12)"
proof -
  have s: "sentenceStrengths 12 = 128" "(128 :: int) div 8 = 16" by (simp_all add: sentenceStrengths_def)
  from Generate_roundtrip [OF example_New example_words_distinct example_crypto_contract example_valid_inputs]
  obtain ws E where
    "Generate example_crypto example_mnemonicer ''te'' ''paSZW0rD!.1234'' ''101938'' 12 = Inr ws"
    "IsValid example_crypto example_mnemonicer ws = Inr True"
    "CalculateEntropy example_crypto example_mnemonicer ws = Inr E"
    "Generate_entropy example_crypto ''te'' ''paSZW0rD!.1234'' ''101938'' 12 128 = Some E"
    "int (length E) = 16" "int (length ws) = 12"
    unfolding s by blast
  then show ?thesis
    using example_New example_words_distinct example_crypto_contract example_valid_inputs
    by (intro conjI exI [of _ E] exI [of _ ws]) simp_all
qed

text \<open>
  C2. For every valid input, the entropy of \<open>Generate\<close> is derived so: the message is
  \<open>identifier:password|passcode=wordCount\<close>, the salt is \<open>pwd\<close>, the password, \<open>code\<close> and
  the passcode; stream A is PBKDF2 with HMAC-SHA512, 262144 iterations and
  \<open>strength / 8\<close> bytes of output; stream B is scrypt with \<open>N = 262144\<close>, \<open>r = 8\<close>,
  \<open>p = 1\<close> and the same output length; byte \<open>i\<close> of the entropy is \<open>A[i] XOR B[i]\<close>. The
  words that \<open>Generate\<close> returns are those of this entropy, and \<open>CalculateEntropy\<close> reads
  the entropy back from them.
\<close>

theorem Generate_entropy_derivation:
  fixes c :: crypto and m :: mnemonicer and idn password passcode :: string and wordCount :: int
  assumes m: "New wl = Inr m" and d: "distinct wl" and c: "crypto_contract c"
    and v: "valid_inputs idn password passcode wordCount"
  defines "strength \<equiv> sentenceStrengths wordCount"
  defines "msg \<equiv> bytes_of (canonical_message idn password passcode wordCount)"
    and "salt \<equiv> bytes_of (spec_salt password passcode)"
  defines "A \<equiv> pbkdf2_Key c msg salt 262144 (strength div 8) sha512_New"
    and "B \<equiv> fst (scrypt_Key c msg salt 262144 8 1 (strength div 8))"
  shows "\<exists>E ws. Generate_entropy c idn password passcode wordCount strength = Some E
           \<and> int (length E) = strength div 8 \<and> length A = length E \<and> length B = length E
           \<and> (\<forall>i < length E. E ! i = A ! i XOR B ! i)
           \<and> Generate c m idn password passcode wordCount = Inr ws
           \<and> Generate_words c m E strength = Inr ws
           \<and> CalculateEntropy c m ws = Inr E"
proof -
  from valid_inputs_accepted [OF v] obtain a k where
    a: "2 \<le> length idn" "12 \<le> length password" "length passcode = 6" "Atoi passcode = Some a"
    and k: "4 \<le> k" "k \<le> 8" "wordCount = int (3 * k)" by blast
  from c have pk: "pbkdf2_contract c" and sk: "scrypt_contract c" by (simp_all add: crypto_contract_def)
  have lw: "length (words m) = 2048" using New_Inr [OF m] by simp
  from v have wc: "wordCount \<in> word_counts" by (simp add: valid_inputs_def)
  have s: "strength = int (32 * k)"
    unfolding strength_def k(3) using k(1,2) by (rule sentenceStrengths_counts)
  have s8: "strength div 8 = int (4 * k)" unfolding s by simp
  have A: "A = pbkdf2_Key c (bytes_of (Generate_input idn password passcode wordCount))
                  (bytes_of (Generate_salt password passcode)) (2 ^ 18) (int (4 * k)) sha512_New"
    unfolding A_def msg_def salt_def s8 Generate_input_canonical [OF wc] Generate_salt_spec by simp
  have B: "B = fst (scrypt_Key c (bytes_of (Generate_input idn password passcode wordCount))
                  (bytes_of (Generate_salt password passcode)) (2 ^ 18) 8 1 (int (4 * k)))"
    unfolding B_def msg_def salt_def s8 Generate_input_canonical [OF wc] Generate_salt_spec by simp
  define E where "E = map (\<lambda>j. A ! j XOR B ! j) [0..<4 * k]"
  have lE: "length E = 4 * k" by (simp add: E_def)
  note ge = Generate_sentence(1) [OF a k pk sk lw, folded A B, folded E_def]
  note g = Generate_sentence(2) [OF a k pk sk lw, folded A B, folded E_def]
  note lens = Generate_entropy_run(1,2) [OF pk sk k(1,2), of idn password passcode wordCount, folded A B]
  note r = sentence_decodes(1) [OF m d k(1,2) lE, of c]
  have gw: "Generate_words c m E strength
            = Inr (map (\<lambda>g. words m ! bits_value g)
                  (map (\<lambda>j. take 11 (drop (j * 11) (take (33 * k - 11) (bytesToBin E)))) [0..<3 * k - 1]
                   @ [drop (33 * k - 11) (bytesToBin E) @ take k (fmt_08b (sha256_Sum256 c E ! 0))]))"
    unfolding s by (rule Generate_words_run [OF k(1,2) lE lw])
  have x: "\<forall>i < length E. E ! i = A ! i XOR B ! i" by (simp add: E_def)
  have l8: "int (length E) = strength div 8" unfolding s8 lE ..
  from ge [folded s] l8 lens lE x g gw r show ?thesis by (intro exI conjI) simp_all
qed

theorem Generate_entropy_derivation_witness:
  "New example_words = Inr example_mnemonicer \<and> distinct example_words \<and> crypto_contract example_crypto
   \<and> valid_inputs ''te'' ''paSZW0rD!.1234'' ''101938'' 12
   \<and> (\<exists>E ws. Generate_entropy example_crypto ''te'' ''paSZW0rD!.1234'' ''101938'' 12 128 = Some E
          \<and> length E = 16
          \<and> (\<forall>i < length E. E ! i =
                pbkdf2_Key example_crypto (bytes_of ''te:paSZW0rD!.1234|101938=12'')
                  (bytes_of ''pwdpaSZW0rD!.1234code101938'') 262144 16 sha512_New ! i
                XOR fst (scrypt_Key example_crypto (bytes_of ''te:paSZW0rD!.1234|101938=12'')
                  (bytes_of ''pwdpaSZW0rD!.1234code101938'') 262144 8 1 16) ! i)
          \<and> Generate example_crypto example_mnemonicer ''te'' ''paSZW0rD!.1234'' ''101938'' 12 = Inr ws
          \<and> CalculateEntropy example_crypto example_mnemonicer ws = Inr E)"
proof -
  have s: "sentenceStrengths 12 = 128" "(128 :: int) div 8 = 16" by (simp_all add: sentenceStrengths_def)
  have t: "canonical_message ''te'' ''paSZW0rD!.1234'' ''101938'' 12 = ''te:paSZW0rD!.1234|101938=12''"
    "spec_salt ''paSZW0rD!.1234'' ''101938'' = ''pwdpaSZW0rD!.1234code101938''"
    by (simp_all add: canonical_message_def count_text_def spec_salt_def)
  from Generate_entropy_derivation [OF example_New example_words_distinct example_crypto_contract example_valid_inputs]
  obtain E ws where
    "Generate_entropy example_crypto ''te'' ''paSZW0rD!.1234'' ''101938'' 12 128 = Some E"
    "int (length E) = 16"
    "\<forall>i < length E. E ! i =
                pbkdf2_Key example_crypto (bytes_of ''te:paSZW0rD!.1234|101938=12'')
                  (bytes_of ''pwdpaSZW0rD!.1234code101938'') 262144 16 sha512_New ! i
                XOR fst (scrypt_Key example_crypto (bytes_of ''te:paSZW0rD!.1234|101938=12'')
                  (bytes_of ''pwdpaSZW0rD!.1234code101938'') 262144 8 1 16) ! i"
    "Generate example_crypto example_mnemonicer ''te'' ''paSZW0rD!.1234'' ''101938'' 12 = Inr ws"
    "CalculateEntropy example_crypto example_mnemonicer ws = Inr E"
    unfolding s t by blast
  then show ?thesis
    using example_New example_words_distinct example_crypto_contract example_valid_inputs
    by (intro conjI exI [of _ E] exI [of _ ws]) simp_all
qed

text \<open>
  C3. For every valid generation, with \<open>checksumSize = strength / 32\<close>,
  \<open>mnemonicLength = (strength + checksumSize) / 11\<close> and \<open>prefixSize = 11 - checksumSize\<close>:
  the entropy bytes are expanded to bits, most significant bit first; the first
  \<open>strength - prefixSize\<close> bits are \<open>mnemonicLength - 1\<close> consecutive groups of 11 bits, and
  word \<open>j\<close> is the dictionary word at the base-2 value of group \<open>j\<close>; the last word is the
  one at the value of the remaining \<open>prefixSize\<close> entropy bits followed by the
  \<open>checksumSize\<close> checksum bits; \<open>Generate\<close> returns exactly \<open>mnemonicLength\<close> words.
\<close>

theorem Generate_word_indices:
  fixes c :: crypto and m :: mnemonicer and idn password passcode :: string and wordCount :: int
  assumes m: "New wl = Inr m" and c: "crypto_contract c"
    and v: "valid_inputs idn password passcode wordCount"
  defines "strength \<equiv> sentenceStrengths wordCount"
  defines "checksumSize \<equiv> strength div 32"
  defines "mnemonicLength \<equiv> (strength + checksumSize) div 11" and "prefixSize \<equiv> 11 - checksumSize"
  shows "\<exists>E cs ws. Generate_entropy c idn password passcode wordCount strength = Some E
           \<and> checksum c E checksumSize = Some cs \<and> int (length cs) = checksumSize
           \<and> Generate c m idn password passcode wordCount = Inr ws
           \<and> int (length ws) = mnemonicLength
           \<and> strength - prefixSize = 11 * (mnemonicLength - 1)
           \<and> (\<forall>j < nat (mnemonicLength - 1).
                 ws ! j = words m ! bits_value (take 11 (drop (11 * j) (take (nat (strength - prefixSize)) (spec_bits E)))))
           \<and> int (length (drop (nat (strength - prefixSize)) (spec_bits E))) = prefixSize
           \<and> ws ! nat (mnemonicLength - 1)
               = words m ! bits_value (drop (nat (strength - prefixSize)) (spec_bits E) @ cs)"
proof -
  from valid_inputs_accepted [OF v] obtain a k where
    a: "2 \<le> length idn" "12 \<le> length password" "length passcode = 6" "Atoi passcode = Some a"
    and k: "4 \<le> k" "k \<le> 8" "wordCount = int (3 * k)" by blast
  from c have pk: "pbkdf2_contract c" and sk: "scrypt_contract c" by (simp_all add: crypto_contract_def)
  have lw: "length (words m) = 2048" using New_Inr [OF m] by simp
  have s: "strength = int (32 * k)"
    unfolding strength_def k(3) using k(1,2) by (rule sentenceStrengths_counts)
  have cz: "checksumSize = int k" unfolding checksumSize_def s by simp
  have ml: "mnemonicLength = int (3 * k)" unfolding mnemonicLength_def cz s by simp
  have ml1: "nat (mnemonicLength - 1) = 3 * k - 1" unfolding ml using k(1) by simp
  have sp: "nat (strength - prefixSize) = 33 * k - 11" unfolding prefixSize_def cz s using k(1) by simp
  define E where "E = map (\<lambda>j. pbkdf2_Key c (bytes_of (Generate_input idn password passcode wordCount))
                  (bytes_of (Generate_salt password passcode)) (2 ^ 18) (int (4 * k)) sha512_New ! j
               XOR fst (scrypt_Key c (bytes_of (Generate_input idn password passcode wordCount))
                  (bytes_of (Generate_salt password passcode)) (2 ^ 18) 8 1 (int (4 * k))) ! j) [0..<4 * k]"
  define cs where "cs = take k (fmt_08b (sha256_Sum256 c E ! 0))"
  define chunks where "chunks = map (\<lambda>j. take 11 (drop (j * 11) (take (33 * k - 11) (spec_bits E)))) [0..<3 * k - 1]"
  define ws where "ws = map (\<lambda>g. words m ! bits_value g) (chunks @ [drop (33 * k - 11) (spec_bits E) @ cs])"
  have lE: "length E = 4 * k" by (simp add: E_def)
  have lb: "length (spec_bits E) = 32 * k" using lE length_bytesToBin [of E] by (simp add: bytesToBin_spec_bits)
  have lc: "length chunks = 3 * k - 1" by (simp add: chunks_def)
  note ge = Generate_sentence(1) [OF a k pk sk lw, folded E_def, folded s]
  note g = Generate_sentence(2) [OF a k pk sk lw, folded E_def, unfolded bytesToBin_spec_bits,
      folded cs_def chunks_def, folded ws_def]
  have ck: "checksum c E checksumSize = Some cs"
    unfolding cz cs_def using k(2) by (rule checksum_run)
  have lcs: "int (length cs) = checksumSize" unfolding cz cs_def using k(2) by simp
  have lws: "int (length ws) = mnemonicLength" unfolding ml ws_def using k(1) lc by simp
  have eq: "strength - prefixSize = 11 * (mnemonicLength - 1)"
    unfolding prefixSize_def cz s ml by simp
  have groups: "\<forall>j < nat (mnemonicLength - 1).
                 ws ! j = words m ! bits_value (take 11 (drop (11 * j) (take (nat (strength - prefixSize)) (spec_bits E))))"
    unfolding ml1 sp
  proof (intro allI impI)
    fix j assume j: "j < 3 * k - 1"
    then have "ws ! j = words m ! bits_value (chunks ! j)"
      unfolding ws_def using lc by (simp add: nth_append)
    also have "chunks ! j = take 11 (drop (11 * j) (take (33 * k - 11) (spec_bits E)))"
      unfolding chunks_def using j by (simp add: mult.commute)
    finally show "ws ! j = words m ! bits_value (take 11 (drop (11 * j) (take (33 * k - 11) (spec_bits E))))" .
  qed
  have lp: "int (length (drop (nat (strength - prefixSize)) (spec_bits E))) = prefixSize"
    unfolding sp using lb k unfolding prefixSize_def cz by simp
  have lst: "ws ! nat (mnemonicLength - 1)
               = words m ! bits_value (drop (nat (strength - prefixSize)) (spec_bits E) @ cs)"
    unfolding ml1 sp ws_def using lc by (simp add: nth_append)
  from ge ck lcs g lws eq groups lp lst show ?thesis by blast
qed

theorem Generate_word_indices_witness:
  "New example_words = Inr example_mnemonicer \<and> crypto_contract example_crypto
   \<and> valid_inputs ''te'' ''paSZW0rD!.1234'' ''101938'' 12
   \<and> (\<exists>E cs ws. Generate_entropy example_crypto ''te'' ''paSZW0rD!.1234'' ''101938'' 12 128 = Some E
          \<and> checksum example_crypto E 4 = Some cs \<and> length cs = 4
          \<and> Generate example_crypto example_mnemonicer ''te'' ''paSZW0rD!.1234'' ''101938'' 12 = Inr ws
          \<and> length ws = 12
          \<and> (\<forall>j < 11. ws ! j = words example_mnemonicer ! bits_value (take 11 (drop (11 * j) (take 121 (spec_bits E)))))
          \<and> length (drop 121 (spec_bits E)) = 7
          \<and> ws ! 11 = words example_mnemonicer ! bits_value (drop 121 (spec_bits E) @ cs))"
proof -
  have s: "sentenceStrengths 12 = 128" "(128 :: int) div 32 = 4" "((128 :: int) + 4) div 11 = 12"
    "nat ((12 :: int) - 1) = 11" "nat ((128 :: int) - (11 - 4)) = 121"
    by (simp_all add: sentenceStrengths_def)
  from Generate_word_indices [OF example_New example_crypto_contract example_valid_inputs]
  obtain E cs ws where
    "Generate_entropy example_crypto ''te'' ''paSZW0rD!.1234'' ''101938'' 12 128 = Some E"
    "checksum example_crypto E 4 = Some cs" "int (length cs) = 4"
    "Generate example_crypto example_mnemonicer ''te'' ''paSZW0rD!.1234'' ''101938'' 12 = Inr ws"
    "int (length ws) = 12"
    "\<forall>j < 11. ws ! j = words example_mnemonicer ! bits_value (take 11 (drop (11 * j) (take 121 (spec_bits E))))"
    "int (length (drop 121 (spec_bits E))) = 11 - 4"
    "ws ! 11 = words example_mnemonicer ! bits_value (drop 121 (spec_bits E) @ cs)"
    unfolding s by blast
  then show ?thesis
    using example_New example_crypto_contract example_valid_inputs
    by (intro conjI exI [of _ E] exI [of _ ws] exI [of _ cs]) simp_all
qed

lemma New_dict_None: "New wl = Inr m \<Longrightarrow> dict m w = None \<longleftrightarrow> w \<notin> set wl"
  using New_Inr(3) [of wl m] by (simp add: dict_loop_dom)

lemma New_dict_at:
  assumes "New wl = Inr m" "w \<in> set wl"
  shows "\<exists>i < 2048. dict_at m w = int i"
proof -
  from dict_loop_range [OF assms(2), of 0 Map.empty] New_Inr [OF assms(1)]
  obtain i where "dict m w = Some (int i)" "i < 2048" by auto
  then show ?thesis by (auto simp: dict_at_def)
qed

lemma buildBins_present:
  assumes m: "New wl = Inr m" and s: "strength \<in> strengths" and p: "list_all (\<lambda>w. w \<in> set wl) ws"
  shows "buildBins m strength ws = Inr (concat (map (\<lambda>w. bits_of 11 (nat (dict_at m w))) ws))"
proof -
  have "find (\<lambda>w. dict m w = None) ws = None"
    using p by (simp add: find_None_iff New_dict_None [OF m] list_all_iff)
  then have v: "validateWordsPrecense m ws = None" by (simp add: validateWordsPrecense_find)
  have "map (\<lambda>w. intToBin (dict_at m w) 11) ws = map (\<lambda>w. bits_of 11 (nat (dict_at m w))) ws"
  proof (rule map_cong [OF refl])
    fix w assume "w \<in> set ws"
    with p have "w \<in> set wl" by (simp add: list_all_iff)
    from New_dict_at [OF m this] obtain i where "i < 2048" "dict_at m w = int i" by blast
    then show "intToBin (dict_at m w) 11 = bits_of 11 (nat (dict_at m w))"
      by (simp add: intToBin_bits_of)
  qed
  then have "concat (map (\<lambda>w. intToBin (dict_at m w) 11) ws) = concat (map (\<lambda>w. bits_of 11 (nat (dict_at m w))) ws)"
    by (rule arg_cong)
  with v s show ?thesis
    by (simp add: buildBins_def validateStrength_def foldl_append_concat bitChunkSizeBip39WordIndex_def)
qed

lemma buildBins_missing:
  assumes m: "New wl = Inr m" and s: "strength \<in> strengths" and f: "find (\<lambda>w. w \<notin> set wl) ws = Some w"
  shows "buildBins m strength ws = Inl (UnrecognizedWord w)"
proof -
  have "(\<lambda>w. dict m w = None) = (\<lambda>w. w \<notin> set wl)"
    by (rule ext) (rule New_dict_None [OF m])
  with f have "validateWordsPrecense m ws = Some (UnrecognizedWord w)"
    by (simp add: validateWordsPrecense_find)
  with s show ?thesis by (simp add: buildBins_def validateStrength_def)
qed

lemma buildBins_unsupported:
  "int (length ws) \<notin> word_counts \<Longrightarrow> buildBins m (sentenceStrengths (int (length ws))) ws = Inl (UnsupportedStrength 0)"
  by (simp add: buildBins_def sentenceStrengths_other validateStrength_zero)

lemma length_concat_bits_of: "length (concat (map (\<lambda>w. bits_of 11 (f w)) ws)) = 11 * length ws"
  by (induction ws) simp_all

lemma bit_string_concat_bits_of: "bit_string (concat (map (\<lambda>w. bits_of 11 (f w)) ws))"
  by (induction ws) simp_all

lemma decode_present:
  fixes c :: crypto and m :: mnemonicer and ws :: "string list" and k :: nat
  assumes k: "4 \<le> k" "k \<le> 8" and l: "length ws = 3 * k"
    and b: "buildBins m (int (32 * k)) ws = Inr bits" and lb: "length bits = 33 * k" and bs: "bit_string bits"
  shows "CalculateEntropy c m ws
         = (if checksum c (packed_bytes (take (32 * k) bits)) (int k) \<noteq> Some (drop (32 * k) bits)
            then Inl InvalidChecksum else Inr (packed_bytes (take (32 * k) bits)))"
    and "IsValid c m ws
         = Inr (checksum c (packed_bytes (take (32 * k) bits)) (int k) = Some (drop (32 * k) bits))"
proof -
  let ?P = "packed_bytes (take (32 * k) bits)"
  have s: "sentenceStrengths (int (length ws)) = int (32 * k)"
    unfolding l using k by (rule sentenceStrengths_counts)
  have s1: "slice_to bits (int (32 * k)) = Some (take (32 * k) bits)"
    using lb by (intro slice_to_nat) simp
  have s2: "slice_from bits (int (32 * k)) = Some (drop (32 * k) bits)"
    using lb by (intro slice_from_nat) simp
  have s3: "binToBytes (take (32 * k) bits) = Some ?P"
    using bs by (intro binToBytes_packed bit_string_take)
  have d: "int (32 * k) div bitChunkSizeEntropy = int k" by (simp add: bitChunkSizeEntropy_def)
  have s4: "checksum c ?P (int k) = Some (take k (fmt_08b (sha256_Sum256 c ?P ! 0)))"
    using k(2) by (rule checksum_run)
  show "CalculateEntropy c m ws
         = (if checksum c ?P (int k) \<noteq> Some (drop (32 * k) bits) then Inl InvalidChecksum else Inr ?P)"
    unfolding CalculateEntropy_def Let_def s b sum.case s1 or_panic_def option.case s3 d s4 s2
    by simp
  show "IsValid c m ws = Inr (checksum c ?P (int k) = Some (drop (32 * k) bits))"
    unfolding IsValid_def Let_def s b sum.case s1 or_panic_def option.case s3 d s4 s2
    by simp
qed

text \<open>
  C5. For every word sequence \<open>ws\<close>: \<open>CalculateEntropy\<close> fails with
  \<open>UnsupportedStrength(0)\<close> if the length of \<open>ws\<close> is not 12, 15, 18, 21 or 24; otherwise
  with \<open>UnrecognizedWord(w)\<close> for the first word \<open>w\<close> that is not in the dictionary;
  otherwise, with \<open>bits\<close> the concatenation of the 11-bit, zero-padded indices of the
  words, with \<open>InvalidChecksum\<close> if the checksum of the first \<open>strength\<close> bits, packed into
  bytes, differs from the bits after them, and it returns the \<open>strength / 8\<close> packed
  bytes otherwise. \<open>IsValid\<close> reports the same two errors in the same order, and the
  comparison of the checksums as its boolean.
\<close>

theorem CalculateEntropy_precedence:
  fixes c :: crypto and m :: mnemonicer and ws :: "string list"
  assumes m: "New wl = Inr m"
  defines "strength \<equiv> sentenceStrengths (int (length ws))"
    and "bits \<equiv> concat (map (\<lambda>w. bits_of 11 (nat (dict_at m w))) ws)"
  shows "CalculateEntropy c m ws
         = (if int (length ws) \<notin> word_counts then Inl (UnsupportedStrength 0)
            else case find (\<lambda>w. w \<notin> set wl) ws of
                   Some w \<Rightarrow> Inl (UnrecognizedWord w)
                 | None \<Rightarrow>
                     if checksum c (packed_bytes (take (nat strength) bits)) (strength div 32)
                          \<noteq> Some (drop (nat strength) bits)
                     then Inl InvalidChecksum
                     else Inr (packed_bytes (take (nat strength) bits)))
       \<and> IsValid c m ws
         = (if int (length ws) \<notin> word_counts then Inl (UnsupportedStrength 0)
            else case find (\<lambda>w. w \<notin> set wl) ws of
                   Some w \<Rightarrow> Inl (UnrecognizedWord w)
                 | None \<Rightarrow>
                     Inr (checksum c (packed_bytes (take (nat strength) bits)) (strength div 32)
                          = Some (drop (nat strength) bits)))
       \<and> (int (length ws) \<in> word_counts \<longrightarrow>
            int (length (packed_bytes (take (nat strength) bits))) = strength div 8
            \<and> int (length (drop (nat strength) bits)) = strength div 32)
       \<and> (distinct wl \<longrightarrow> (\<forall>i < length wl. dict_at m (wl ! i) = int i))"
proof -
  have idx: "distinct wl \<longrightarrow> (\<forall>i < length wl. dict_at m (wl ! i) = int i)"
  proof (intro impI allI)
    fix i assume "distinct wl" "i < length wl"
    from dict_loop_distinct [OF this, of 0 Map.empty] show "dict_at m (wl ! i) = int i"
      by (simp add: dict_at_def New_Inr(3) [OF m])
  qed
  show ?thesis
  proof (cases "int (length ws) \<in> word_counts")
    case False
    then show ?thesis
      using idx by (simp add: CalculateEntropy_def IsValid_def buildBins_unsupported)
  next
    case True
    then obtain k where k: "4 \<le> k" "k \<le> 8" "int (length ws) = int (3 * k)"
      unfolding word_counts_cases by blast
    then have l: "length ws = 3 * k" by simp
    have s: "strength = int (32 * k)"
      unfolding strength_def k(3) using k(1,2) by (rule sentenceStrengths_counts)
    have si: "int (32 * k) \<in> strengths" using k strengths_cases by blast
    have ns: "nat strength = 32 * k" "strength div 32 = int k" "strength div 8 = int (4 * k)" unfolding s by simp_all
    have lb: "length bits = 33 * k" unfolding bits_def length_concat_bits_of l by simp
    have bb: "bit_string bits" unfolding bits_def by (rule bit_string_concat_bits_of)
    have lens: "int (length (packed_bytes (take (nat strength) bits))) = strength div 8
            \<and> int (length (drop (nat strength) bits)) = strength div 32"
      unfolding ns length_packed_bytes using lb by simp
    show ?thesis
    proof (cases "find (\<lambda>w. w \<notin> set wl) ws")
      case None
      then have "list_all (\<lambda>w. w \<in> set wl) ws" by (simp add: find_None_iff list_all_iff)
      from buildBins_present [OF m si this]
      have b: "buildBins m (int (32 * k)) ws = Inr bits" unfolding bits_def .
      note r = decode_present [OF k(1,2) l b lb bb, of c]
      from True None idx lens show ?thesis unfolding r ns by simp
    next
      case (Some w)
      from buildBins_missing [OF m si Some]
      have b: "buildBins m (sentenceStrengths (int (length ws))) ws = Inl (UnrecognizedWord w)"
        unfolding strength_def [symmetric] s .
      from True Some idx lens show ?thesis
        by (simp add: CalculateEntropy_def IsValid_def b)
    qed
  qed
qed

theorem CalculateEntropy_precedence_witness:
  "New example_words = Inr example_mnemonicer
   \<and> CalculateEntropy example_crypto example_mnemonicer [''1'', ''10''] = Inl (UnsupportedStrength 0)
   \<and> IsValid example_crypto example_mnemonicer [''1'', ''10''] = Inl (UnsupportedStrength 0)
   \<and> CalculateEntropy example_crypto example_mnemonicer
        [''0'', ''zoo'', ''0'', ''0'', ''0'', ''0'', ''0'', ''0'', ''0'', ''0'', ''0'', ''101'']
       = Inl (UnrecognizedWord ''zoo'')
   \<and> CalculateEntropy example_crypto example_mnemonicer
        [''0'', ''0'', ''0'', ''0'', ''0'', ''0'', ''0'', ''0'', ''0'', ''0'', ''0'', ''0'']
       = Inl InvalidChecksum
   \<and> CalculateEntropy example_crypto example_mnemonicer
        [''0'', ''0'', ''0'', ''0'', ''0'', ''0'', ''0'', ''0'', ''0'', ''0'', ''0'', ''101'']
       = Inr [0, 0, 0, 0, 0, 0, 0, 0, 0, 0, 0, 0, 0, 0, 0, 0]
   \<and> IsValid example_crypto example_mnemonicer
        [''0'', ''0'', ''0'', ''0'', ''0'', ''0'', ''0'', ''0'', ''0'', ''0'', ''0'', ''101''] = Inr True"
proof -
  let ?c = example_crypto and ?m = example_mnemonicer
  let ?short = "[''1'', ''10'']"
  let ?zoo = "[''0'', ''zoo'', ''0'', ''0'', ''0'', ''0'', ''0'', ''0'', ''0'', ''0'', ''0'', ''101'']"
  let ?bad = "[''0'', ''0'', ''0'', ''0'', ''0'', ''0'', ''0'', ''0'', ''0'', ''0'', ''0'', ''0'']"
  let ?good = "[''0'', ''0'', ''0'', ''0'', ''0'', ''0'', ''0'', ''0'', ''0'', ''0'', ''0'', ''101'']"
  note T = CalculateEntropy_precedence [OF example_New, of ?c]
  have len: "int (length ?short) = 2" "int (length ?zoo) = 12" "int (length ?bad) = 12" "int (length ?good) = 12"
    by simp_all
  have wc: "(12 :: int) \<in> word_counts" "(2 :: int) \<notin> word_counts" by (simp_all add: word_counts_def)
  have st: "sentenceStrengths 12 = 128" "nat 128 = 128" "(128 :: int) div 32 = 4"
    by (simp_all add: sentenceStrengths_def)
  have f: "find (\<lambda>w. w \<notin> set example_words) ?zoo = Some ''zoo''"
    "find (\<lambda>w. w \<notin> set example_words) ?bad = None"
    "find (\<lambda>w. w \<notin> set example_words) ?good = None"
    by (simp_all add: example_members)
  have bits: "bits_of 11 (nat (dict_at ?m ''0'')) = ''00000000000''"
    "bits_of 11 (nat (dict_at ?m ''101'')) = ''00000000101''"
    unfolding example_indices by (simp_all add: bits_of_examples)
  have S: "CalculateEntropy ?c ?m ?short = Inl (UnsupportedStrength 0)"
    "IsValid ?c ?m ?short = Inl (UnsupportedStrength 0)"
    using T [of ?short] unfolding len by (simp_all add: wc)
  have Z: "CalculateEntropy ?c ?m ?zoo = Inl (UnrecognizedWord ''zoo'')"
    using T [of ?zoo] unfolding len f by (simp add: wc)
  have B: "CalculateEntropy ?c ?m ?bad = Inl InvalidChecksum"
    using T [of ?bad]
    unfolding len f st example_bits bits example_split packed_zeros example_checksum
    by (simp add: wc)
  have G: "CalculateEntropy ?c ?m ?good = Inr [0, 0, 0, 0, 0, 0, 0, 0, 0, 0, 0, 0, 0, 0, 0, 0]"
    "IsValid ?c ?m ?good = Inr True"
    using T [of ?good]
    unfolding len f st example_bits bits example_split packed_zeros example_checksum
    by (simp_all add: wc)
  from example_New S Z B G show ?thesis by simp
qed

text \<open>
  The checks of \<open>Generate\<close> in the order of the code: identifier length, password
  length, passcode length, the error of \<open>strconv.Atoi\<close>, word count. When every check
  passes, the result is the sentence of the derived entropy, and none of these errors.
\<close>

lemma Generate_checks_cascade:
  "Generate c m idn password passcode wordCount
   = (if length idn < 2 then Inl IdentifierTooShort
      else if length password < 12 then Inl PasswordTooShort
      else if length passcode \<noteq> 6 then Inl PasscodeWrongLength
      else if Atoi passcode = None then Inl (PasscodeNotNumeric passcode)
      else if wordCount \<notin> word_counts then Inl (UnsupportedStrength 0)
      else or_panic (Generate_entropy c idn password passcode wordCount (sentenceStrengths wordCount))
             (\<lambda>entropy. Generate_words c m entropy (sentenceStrengths wordCount)))
   \<and> (case or_panic (Generate_entropy c idn password passcode wordCount (sentenceStrengths wordCount))
             (\<lambda>entropy. Generate_words c m entropy (sentenceStrengths wordCount)) of
        Inl e \<Rightarrow> e = Panic
      | Inr ws \<Rightarrow> True)"
proof
  show "Generate c m idn password passcode wordCount
   = (if length idn < 2 then Inl IdentifierTooShort
      else if length password < 12 then Inl PasswordTooShort
      else if length passcode \<noteq> 6 then Inl PasscodeWrongLength
      else if Atoi passcode = None then Inl (PasscodeNotNumeric passcode)
      else if wordCount \<notin> word_counts then Inl (UnsupportedStrength 0)
      else or_panic (Generate_entropy c idn password passcode wordCount (sentenceStrengths wordCount))
             (\<lambda>entropy. Generate_words c m entropy (sentenceStrengths wordCount)))"
  proof (cases "wordCount \<in> word_counts")
    case True
    then obtain k where k: "4 \<le> k" "k \<le> 8" "wordCount = int (3 * k)"
      unfolding word_counts_cases by blast
    have s: "sentenceStrengths wordCount = int (32 * k)"
      unfolding k(3) using k(1,2) by (rule sentenceStrengths_counts)
    have vs: "validateStrength (int (32 * k)) = None"
      using k(1,2) by (rule validateStrength_ok)
    from True show ?thesis
      unfolding Generate_def Let_def s vs
      by (auto simp: inputIdentifierMinLength_def inputPasswordMinLength_def inputPasscodeLength_def
          split: option.splits)
  next
    case False
    then show ?thesis
      unfolding Generate_def Let_def
      by (auto simp: inputIdentifierMinLength_def inputPasswordMinLength_def inputPasscodeLength_def
          sentenceStrengths_other validateStrength_zero split: option.splits)
  qed
  have w: "case Generate_words c m E s of Inl e \<Rightarrow> e = Panic | Inr ws \<Rightarrow> True" for E s
    unfolding Generate_words_def Let_def or_panic_def
    by (simp split: option.splits)
  show "case or_panic (Generate_entropy c idn password passcode wordCount (sentenceStrengths wordCount))
             (\<lambda>entropy. Generate_words c m entropy (sentenceStrengths wordCount)) of
        Inl e \<Rightarrow> e = Panic
      | Inr ws \<Rightarrow> True"
    using w by (cases "Generate_entropy c idn password passcode wordCount (sentenceStrengths wordCount)")
      (simp_all add: or_panic_def)
qed

lemma digits_pass_Atoi: "valid_passcode passcode \<Longrightarrow> Atoi passcode \<noteq> None"
  using Atoi_digits [of passcode] by (auto simp: valid_passcode_def)

text \<open>
  C7. The specification says that \<open>Generate\<close> checks its preconditions in the order
  identifier length, password length, passcode length, passcode numeric, word count, and
  returns the error of the first check that fails. The first three checks and the last
  are those of the code, in this order (\<open>Generate_checks_cascade\<close>), but the fourth is
  the error of \<open>strconv.Atoi\<close>, which accepts a leading sign: with the passcode
  \<open>+12345\<close>, which is not six decimal digits, and the word count 13, the first
  precondition that fails is the fourth, and \<open>Generate\<close> returns the error of the
  fifth, \<open>UnsupportedStrength(0)\<close>, whatever the libraries and the word list are.
\<close>

theorem sign_passcode_reaches_word_count:
  "2 \<le> length ''te'' \<and> 12 \<le> length ''test12345678'' \<and> length ''+12345'' = 6
   \<and> \<not> valid_passcode ''+12345''
   \<and> Generate c m ''te'' ''test12345678'' ''+12345'' 13 = Inl (UnsupportedStrength 0)"
proof -
  have at: "Atoi ''+12345'' = Some 12345"
    by (simp add: Atoi_def strip_sign_def Let_def)
  have nv: "\<not> valid_passcode ''+12345''"
    by (simp add: valid_passcode_def decimal_digit_def)
  have "Generate c m ''te'' ''test12345678'' ''+12345'' 13 = Inl (UnsupportedStrength 0)"
    unfolding Generate_def Let_def at
    by (simp add: inputIdentifierMinLength_def inputPasswordMinLength_def inputPasscodeLength_def
        sentenceStrengths_def validateStrength_zero)
  with nv show ?thesis by simp
qed

text \<open>
  C6. The specification says that a passcode of length 6 with a character that is not
  a decimal digit makes \<open>Generate\<close> fail with \<open>PasscodeNotNumeric\<close>, and six decimal digits pass. The
  check of the code is the error of \<open>strconv.Atoi\<close>, which accepts a leading sign: on
  the passcode \<open>+12345\<close> (five digits) \<open>Generate\<close> returns a sentence of 12 words. The
  theorem evaluates the code there; \<open>digits_pass_Atoi\<close> is the half of the statement that
  holds.
\<close>

theorem passcode_sign_accepted:
  "length ''+12345'' = 6 \<and> \<not> list_all decimal_digit ''+12345'' \<and> Atoi ''+12345'' = Some 12345
   \<and> (\<exists>ws. Generate example_crypto example_mnemonicer ''te'' ''test12345678'' ''+12345'' 12 = Inr ws
          \<and> length ws = 12)"
proof -
  have a: "2 \<le> length ''te''" "12 \<le> length ''test12345678''" "length ''+12345'' = 6" by simp_all
  have at: "Atoi ''+12345'' = Some 12345"
    by (simp add: Atoi_def strip_sign_def Let_def)
  have k: "(4 :: nat) \<le> 4" "(4 :: nat) \<le> 8" "(12 :: int) = int (3 * 4)" by simp_all
  have lw: "length (words example_mnemonicer) = 2048"
    by (simp add: example_mnemonicer_def example_words_length)
  note g = Generate_sentence(2) [OF a at k example_pbkdf2 example_scrypt lw]
  have nd: "\<not> list_all decimal_digit ''+12345''" by (simp add: decimal_digit_def)
  from g have "\<exists>ws. Generate example_crypto example_mnemonicer ''te'' ''test12345678'' ''+12345'' 12 = Inr ws
          \<and> length ws = 12"
    by simp
  with a(3) nd at show ?thesis by blast
qed

text \<open>
  C8. For every bit string of any length \<open>n\<close>, \<open>binToBytes\<close> returns exactly
  \<open>ceil(n / 8)\<close> bytes: every full group of 8 bits is the byte of its base-2 value,
  and a last group of \<open>k < 8\<close> bits is that value shifted left by \<open>8 - k\<close>, so that its
  low \<open>8 - k\<close> bits are zero; for \<open>n\<close> a multiple of 8 these are \<open>n / 8\<close> bytes.
\<close>

theorem binToBytes_packs:
  assumes "bit_string s"
  shows "\<exists>out. binToBytes s = Some out
           \<and> length out = (length s + 7) div 8
           \<and> (\<forall>j. 8 * j + 8 \<le> length s \<longrightarrow> out ! j = of_nat (bits_value (take 8 (drop (8 * j) s))))
           \<and> (length s mod 8 \<noteq> 0 \<longrightarrow>
                out ! (length s div 8)
                  = push_bit (8 - length s mod 8) (of_nat (bits_value (drop (8 * (length s div 8)) s)))
                \<and> take_bit (8 - length s mod 8) (out ! (length s div 8)) = 0)
           \<and> (8 dvd length s \<longrightarrow> length out = length s div 8)"
proof (intro exI conjI allI impI)
  show "binToBytes s = Some (packed_bytes s)" using assms by (rule binToBytes_packed)
  show "length (packed_bytes s) = (length s + 7) div 8" by (rule length_packed_bytes)
next
  fix j assume j: "8 * j + 8 \<le> length s"
  then have "j < length (packed_bytes s)" unfolding length_packed_bytes by simp
  from nth_packed_bytes [OF this] j
  show "packed_bytes s ! j = of_nat (bits_value (take 8 (drop (8 * j) s)))"
    by (simp add: spec_byte_def)
next
  assume r: "length s mod 8 \<noteq> 0"
  let ?q = "length s div 8"
  let ?g = "drop (8 * ?q) s"
  have lg: "length ?g = length s mod 8" by (simp add: minus_mult_div_eq_mod)
  have "length s = 8 * ?q + length s mod 8" by simp
  with r have "?q < (length s + 7) div 8" by linarith
  then have "?q < length (packed_bytes s)" unfolding length_packed_bytes .
  then have "packed_bytes s ! ?q = spec_byte (take 8 ?g)" by (rule nth_packed_bytes)
  also have "take 8 ?g = ?g" using lg by simp
  also have "spec_byte ?g = of_nat (bits_value ?g * 2 ^ (8 - length s mod 8))"
    unfolding spec_byte_def lg ..
  also have "\<dots> = push_bit (8 - length s mod 8) (of_nat (bits_value ?g))"
    by (simp only: push_bit_eq_mult of_nat_mult of_nat_power of_nat_numeral)
  finally show p: "packed_bytes s ! ?q = push_bit (8 - length s mod 8) (of_nat (bits_value ?g))" .
  show "take_bit (8 - length s mod 8) (packed_bytes s ! ?q) = 0"
    unfolding p by (simp add: take_bit_push_bit)
next
  assume "8 dvd length s"
  then show "length (packed_bytes s) = length s div 8"
    unfolding length_packed_bytes by (auto simp: dvd_def)
qed

theorem binToBytes_packs_witness:
  "bit_string ''00000000101'' \<and> binToBytes ''00000000101'' = Some [0, 160]"
proof -
  let ?s = "''00000000101''"
  have h: "bit_string ?s" by simp
  have len: "length ?s = 11" by simp
  from binToBytes_packs [OF h] obtain out where o: "binToBytes ?s = Some out"
    "length out = (length ?s + 7) div 8"
    "\<forall>j. 8 * j + 8 \<le> length ?s \<longrightarrow> out ! j = of_nat (bits_value (take 8 (drop (8 * j) ?s)))"
    "length ?s mod 8 \<noteq> 0 \<longrightarrow>
       out ! (length ?s div 8) = push_bit (8 - length ?s mod 8) (of_nat (bits_value (drop (8 * (length ?s div 8)) ?s)))
       \<and> take_bit (8 - length ?s mod 8) (out ! (length ?s div 8)) = 0"
    by blast
  have l: "length out = 2" using o(2) unfolding len by simp
  have "8 * 0 + 8 \<le> length ?s" unfolding len by simp
  with o(3) have "out ! 0 = of_nat (bits_value (take 8 (drop (8 * 0) ?s)))" by blast
  then have a: "out ! 0 = 0" by (simp add: bits_value_def bit_of_def)
  have ar: "(11 :: nat) mod 8 = 3" "(11 :: nat) div 8 = 1" by simp_all
  from o(4) have "out ! 1 = push_bit 5 (of_nat (bits_value (drop 8 ?s)))"
    unfolding len ar by simp
  then have b: "out ! 1 = 160" by (simp add: bits_value_def bit_of_def)
  from l obtain x y where xy: "out = [x, y]"
    by (cases out; cases "tl out") auto
  with a b have "out = [0, 160]" by simp
  with o(1) h show ?thesis by simp
qed




end
